theory Spec2Isabelle
  imports Complex_Main "HOL-Library.Multiset"
begin

section \<open>Data model (src/types.ts)\<close>

text \<open>
  A JavaScript \<^verbatim>\<open>number\<close> is modelled as a \<^typ>\<open>real\<close>, an optional field
  (\<^verbatim>\<open>f?: T\<close>) as an \<^typ>\<open>'a option\<close> with \<^term>\<open>None\<close> for \<^verbatim>\<open>undefined\<close>.
  Field names carry a prefix where several interfaces share a name (\<^verbatim>\<open>id\<close>,
  \<^verbatim>\<open>name\<close>, \<^verbatim>\<open>points\<close>) or where the name is a constant of HOL (\<^verbatim>\<open>round\<close>).
  Fields that neither the schedule generator nor the standings computation reads are
  left out: the statistics fields of \<^verbatim>\<open>Team\<close> (\<^verbatim>\<open>matchesPlayed\<close> ... \<^verbatim>\<open>nrr\<close>), which
  the bye placeholder of the generator does not have; the format, playoff, officials,
  super-over and DLS settings of \<^verbatim>\<open>TournamentConfig\<close>; the type, creation date, season,
  header and team count of \<^verbatim>\<open>Tournament\<close>.
\<close>

record Team =
  t_id :: string
  t_name :: string
  logoUrl :: "string option"
  owner :: "string option"

record Stadium =
  s_id :: string
  s_name :: string

datatype MatchResultType = T1_WIN | T2_WIN | DRAW | TIE | NO_RESULT | ABANDONED

datatype MatchStatus = NOT_STARTED | IN_PROGRESS | COMPLETED

record Match =
  m_id :: string
  m_round :: nat
  team1Id :: string
  team2Id :: string
  venueId :: string
  status :: MatchStatus
  resultType :: "MatchResultType option"
  m_notes :: "string option"
  t1Runs :: "real option"
  t1Wickets :: "real option"
  t1Overs :: "real option"
  t2Runs :: "real option"
  t2Wickets :: "real option"
  t2Overs :: "real option"
  tossWinnerId :: "string option"
  isDlsApplied :: "bool option"

record PenaltyRecord =
  p_id :: string
  teamId :: string
  p_points :: real
  reason :: string
  date :: string

record TournamentConfig =
  oversPerMatch :: string
  pointsForWin :: real
  pointsForDraw :: real
  pointsForLoss :: real

text \<open>The tournament's \<^verbatim>\<open>'COMPLETED'\<close> is written \<open>CONCLUDED\<close>: the match status has the name.\<close>

datatype TournamentStatus = UPCOMING | ONGOING | CONCLUDED

record Tournament =
  tr_id :: string
  tr_name :: string
  tr_status :: "TournamentStatus option"
  teams :: "Team list"
  stadiums :: "Stadium list"
  matches :: "Match list"
  penalties :: "PenaltyRecord list"
  config :: TournamentConfig

section \<open>True overs (toTrueOvers)\<close>

text \<open>\<^verbatim>\<open>Math.round\<close> rounds to the nearest integer, a half towards plus infinity.\<close>

definition Math_round :: "real \<Rightarrow> int" where
  "Math_round x = \<lfloor>x + 1 / 2\<rfloor>"

definition toTrueOvers :: "real \<Rightarrow> real" where
  "toTrueOvers overs =
     (let integerPart = \<lfloor>overs\<rfloor>;
          balls = (overs - of_int integerPart) * 10;
          validBalls = min (Math_round balls) 6
      in of_int integerPart + of_int validBalls / 6)"

section \<open>Standings and net run rate (the \<^verbatim>\<open>standings\<close> memo)\<close>

text \<open>
  The local variables of the per-team callback: the counters, the points and the four
  totals of the net-run-rate ledger, and the form sequence.
\<close>

record Ledger =
  mp :: nat
  mw :: nat
  ml :: nat
  mt :: nat
  nr :: nat
  pts :: real
  totalRunsScored :: real
  totalTrueOversFaced :: real
  totalRunsConceded :: real
  totalTrueOversBowled :: real
  form :: "string list"

text \<open>One element of the result: the team with the derived figures.\<close>

record Standing =
  r_team :: Team
  r_mp :: nat
  r_mw :: nat
  r_ml :: nat
  r_mt :: nat
  r_nr :: nat
  r_pts :: real
  r_nrr :: real
  r_form :: "string list"

text \<open>\<^verbatim>\<open>x ?? d\<close> on an optional field, and \<^verbatim>\<open>x || 0\<close> on a number.\<close>

definition nullish :: "'a option \<Rightarrow> 'a \<Rightarrow> 'a" where
  "nullish x d = (case x of None \<Rightarrow> d | Some v \<Rightarrow> v)"

definition or0 :: "real \<Rightarrow> real" where
  "or0 x = (if x = 0 then 0 else x)"

text \<open>
  \<^verbatim>\<open>parseFloat\<close> is a built-in of the host language; it is a parameter \<open>pf\<close> of the
  model, \<^term>\<open>None\<close> standing for \<^verbatim>\<open>NaN\<close>. \<^verbatim>\<open>parseFloat(s) || 0\<close> is 0 for
  \<^verbatim>\<open>NaN\<close> and for 0.
\<close>

definition maxO :: "(string \<Rightarrow> real option) \<Rightarrow> TournamentConfig \<Rightarrow> real" where
  "maxO pf cfg = (case pf (oversPerMatch cfg) of None \<Rightarrow> 0 | Some v \<Rightarrow> or0 v)"

text \<open>
  The body of \<^verbatim>\<open>matches.forEach\<close>, on the ledger of one team: \<open>tally\<close>. Its two
  parts are the chain of tests on the result (\<open>add_outcome\<close>) and the block that adds
  the runs and the overs of the two innings (\<open>add_innings\<close>), entered only when the
  result is neither abandoned nor a no-result and both run totals are there.
\<close>

definition add_outcome :: "TournamentConfig \<Rightarrow> bool \<Rightarrow> MatchResultType option \<Rightarrow> Ledger \<Rightarrow> Ledger" where
  "add_outcome cfg isT1 res a =
     (if (isT1 \<and> res = Some T1_WIN) \<or> (\<not> isT1 \<and> res = Some T2_WIN) then
        a\<lparr>mw := mw a + 1, pts := pts a + pointsForWin cfg, form := form a @ [''W'']\<rparr>
      else if res = Some TIE then
        a\<lparr>mt := mt a + 1, pts := pts a + pointsForDraw cfg, form := form a @ [''T'']\<rparr>
      else if res = Some NO_RESULT \<or> res = Some ABANDONED then
        a\<lparr>nr := nr a + 1, pts := pts a + pointsForDraw cfg, form := form a @ [''NR'']\<rparr>
      else
        a\<lparr>ml := ml a + 1, pts := pts a + pointsForLoss cfg, form := form a @ [''L'']\<rparr>)"

definition add_innings :: "real \<Rightarrow> bool \<Rightarrow> Match \<Rightarrow> Ledger \<Rightarrow> Ledger" where
  "add_innings maxOv isT1 m a =
     (let rS = (if isT1 then nullish (t1Runs m) 0 else nullish (t2Runs m) 0);
          wS = (if isT1 then nullish (t1Wickets m) 0 else nullish (t2Wickets m) 0);
          oS = (if isT1 then nullish (t1Overs m) 0 else nullish (t1Overs m) 0);
          rC = (if isT1 then nullish (t2Runs m) 0 else nullish (t1Runs m) 0);
          wC = (if isT1 then nullish (t2Wickets m) 0 else nullish (t1Wickets m) 0);
          oC = (if isT1 then nullish (t2Overs m) 0 else nullish (t1Overs m) 0)
      in a\<lparr>totalRunsScored := totalRunsScored a + rS,
            totalRunsConceded := totalRunsConceded a + rC,
            totalTrueOversFaced :=
              totalTrueOversFaced a + (if wS = 10 then maxOv else toTrueOvers oS),
            totalTrueOversBowled :=
              totalTrueOversBowled a + (if wC = 10 then maxOv else toTrueOvers oC)\<rparr>)"

definition tally ::
  "(string \<Rightarrow> real option) \<Rightarrow> TournamentConfig \<Rightarrow> Team \<Rightarrow> Match \<Rightarrow> Ledger \<Rightarrow> Ledger" where
  "tally pf cfg team m a =
     (let a1 = a\<lparr>mp := mp a + 1\<rparr>;
          isT1 = (team1Id m = t_id team);
          res = resultType m;
          maxOv = maxO pf cfg;
          a2 = add_outcome cfg isT1 res a1
      in if res \<noteq> Some ABANDONED \<and> res \<noteq> Some NO_RESULT
            \<and> t1Runs m \<noteq> None \<and> t2Runs m \<noteq> None
         then add_innings maxOv isT1 m a2 else a2)"

definition ledger0 :: Ledger where
  "ledger0 = \<lparr>mp = 0, mw = 0, ml = 0, mt = 0, nr = 0, pts = 0,
     totalRunsScored = 0, totalTrueOversFaced = 0, totalRunsConceded = 0,
     totalTrueOversBowled = 0, form = []\<rparr>"

definition team_matches :: "Tournament \<Rightarrow> Team \<Rightarrow> Match list" where
  "team_matches t team =
     filter (\<lambda>m. (team1Id m = t_id team \<or> team2Id m = t_id team) \<and> status m = COMPLETED)
       (matches t)"

definition penPts :: "Tournament \<Rightarrow> Team \<Rightarrow> real" where
  "penPts t team =
     foldl (\<lambda>s p. s + or0 (p_points p)) 0
       (filter (\<lambda>p. teamId p = t_id team) (penalties t))"

definition net_run_rate :: "Ledger \<Rightarrow> real" where
  "net_run_rate a =
     (if totalTrueOversFaced a > 0 \<and> totalTrueOversBowled a > 0
      then totalRunsScored a / totalTrueOversFaced a
           - totalRunsConceded a / totalTrueOversBowled a
      else 0)"

text \<open>\<^verbatim>\<open>form.slice(-5).reverse()\<close>\<close>

definition recent_form :: "string list \<Rightarrow> string list" where
  "recent_form f = rev (drop (length f - 5) f)"

definition team_row :: "(string \<Rightarrow> real option) \<Rightarrow> Tournament \<Rightarrow> Team \<Rightarrow> Standing" where
  "team_row pf t team =
     (let a = fold (tally pf (config t) team) (team_matches t team) ledger0
      in \<lparr>r_team = team, r_mp = mp a, r_mw = mw a, r_ml = ml a, r_mt = mt a, r_nr = nr a,
          r_pts = max 0 (pts a - penPts t team), r_nrr = net_run_rate a,
          r_form = recent_form (form a)\<rparr>)"

text \<open>
  The comparison function handed to \<^verbatim>\<open>Array.prototype.sort\<close>. \<^verbatim>\<open>localeCompare\<close> is
  a built-in whose result depends on the host's collation; it is the parameter \<open>lc\<close>.
\<close>

definition compare_rows :: "(string \<Rightarrow> string \<Rightarrow> int) \<Rightarrow> Standing \<Rightarrow> Standing \<Rightarrow> real" where
  "compare_rows lc a b =
     (let ptsDiff = or0 (r_pts b) - or0 (r_pts a) in
      if ptsDiff \<noteq> 0 then ptsDiff else
      let nrrDiff = or0 (r_nrr b) - or0 (r_nrr a) in
      if nrrDiff \<noteq> 0 then nrrDiff else
      let mwDiff = or0 (real (r_mw b)) - or0 (real (r_mw a)) in
      if mwDiff \<noteq> 0 then mwDiff else
      of_int (lc (t_name (r_team a)) (t_name (r_team b))))"

text \<open>
  \<^verbatim>\<open>Array.prototype.sort\<close> with a comparison function is a stable sort; which
  algorithm it runs is left to the host, and for a comparison that is a total preorder
  every stable sort gives the same list. It is modelled as an insertion sort: an element
  goes before the first element it does not compare greater than, and the elements are
  inserted from the right so that equal elements keep their order.
\<close>

fun insert_by :: "('a \<Rightarrow> 'a \<Rightarrow> real) \<Rightarrow> 'a \<Rightarrow> 'a list \<Rightarrow> 'a list" where
  "insert_by c x [] = [x]"
| "insert_by c x (y # ys) = (if c x y \<le> 0 then x # y # ys else y # insert_by c x ys)"

definition sort_by :: "('a \<Rightarrow> 'a \<Rightarrow> real) \<Rightarrow> 'a list \<Rightarrow> 'a list" where
  "sort_by c xs = foldr (insert_by c) xs []"

definition standings ::
  "(string \<Rightarrow> real option) \<Rightarrow> (string \<Rightarrow> string \<Rightarrow> int) \<Rightarrow> Tournament \<Rightarrow> Standing list" where
  "standings pf lc t = sort_by (compare_rows lc) (map (team_row pf t) (teams t))"

section \<open>Schedule generation (handleGenerateSchedule)\<close>

definition BYE :: Team where
  "BYE = \<lparr>t_id = ''BYE'', t_name = ''BYE'', logoUrl = None, owner = None\<rparr>"

text \<open>
  \<^verbatim>\<open>teamPool.splice(1, 0, teamPool.pop()!)\<close>: the last element is taken off and put
  back at index 1. The pool is never empty where the generator calls it.
\<close>

fun rotate_pool :: "'a list \<Rightarrow> 'a list" where
  "rotate_pool [] = []"
| "rotate_pool (x # xs) =
     (let l = last (x # xs); ys = butlast (x # xs) in take 1 ys @ l # drop 1 ys)"

text \<open>A number inside a template literal: its decimal digits.\<close>

fun show_nat :: "nat \<Rightarrow> string" where
  "show_nat n =
     (if n < 10 then [char_of (48 + n)] else show_nat (n div 10) @ [char_of (48 + n mod 10)])"

declare show_nat.simps [simp del]

text \<open>
  \<^verbatim>\<open>tournament.stadiums[Math.floor(Math.random() * tournament.stadiums.length)]\<close>, then
  \<^verbatim>\<open>venue?.id || 'neutral'\<close>: a read out of range and an empty id both give the
  placeholder. \<open>u\<close> is the number \<^verbatim>\<open>Math.random()\<close> returned.
\<close>

definition pick_venue :: "Stadium list \<Rightarrow> real \<Rightarrow> string" where
  "pick_venue ss u =
     (let i = \<lfloor>u * real (length ss)\<rfloor> in
      if 0 \<le> i \<and> nat i < length ss
      then (if s_id (ss ! nat i) = [] then ''neutral'' else s_id (ss ! nat i))
      else ''neutral'')"

text \<open>
  The generator reads the clock and the random source once for every match it creates.
  \<open>rnd k\<close> and \<open>now k\<close> are what \<^verbatim>\<open>Math.random()\<close> and \<^verbatim>\<open>Date.now()\<close> return at
  their \<open>k\<close>-th call; the state of the loops counts the calls made.
\<close>

record Gen =
  teamPool :: "Team list"
  g_matches :: "Match list"
  draws :: nat

definition new_match ::
  "(nat \<Rightarrow> real) \<Rightarrow> (nat \<Rightarrow> nat) \<Rightarrow> Stadium list \<Rightarrow> nat \<Rightarrow> nat \<Rightarrow> Team \<Rightarrow> Team \<Rightarrow> nat \<Rightarrow> Match" where
  "new_match rnd now ss r m t1 t2 k =
     \<lparr>m_id = ''M-R'' @ show_nat (r + 1) @ ''-'' @ show_nat m @ ''-'' @ show_nat (now k),
      m_round = r + 1, team1Id = t_id t1, team2Id = t_id t2,
      venueId = pick_venue ss (rnd k), status = NOT_STARTED,
      resultType = None, m_notes = None,
      t1Runs = None, t1Wickets = None, t1Overs = None,
      t2Runs = None, t2Wickets = None, t2Overs = None,
      tossWinnerId = None, isDlsApplied = None\<rparr>"

text \<open>The body of the inner loop, for the pairing \<open>m\<close> of round \<open>r\<close>.\<close>

definition pair_step ::
  "(nat \<Rightarrow> real) \<Rightarrow> (nat \<Rightarrow> nat) \<Rightarrow> Stadium list \<Rightarrow> nat \<Rightarrow> nat \<Rightarrow> Gen \<Rightarrow> Gen" where
  "pair_step rnd now ss r m g =
     (let t1 = teamPool g ! m;
          t2 = teamPool g ! (length (teamPool g) - 1 - m)
      in if t_id t1 \<noteq> ''BYE'' \<and> t_id t2 \<noteq> ''BYE''
         then g\<lparr>g_matches := g_matches g @ [new_match rnd now ss r m t1 t2 (draws g)],
                draws := draws g + 1\<rparr>
         else g)"

text \<open>The body of the outer loop: the pairings of round \<open>r\<close>, then the rotation.\<close>

definition round_step ::
  "(nat \<Rightarrow> real) \<Rightarrow> (nat \<Rightarrow> nat) \<Rightarrow> Stadium list \<Rightarrow> nat \<Rightarrow> nat \<Rightarrow> Gen \<Rightarrow> Gen" where
  "round_step rnd now ss matchesPerRound r g =
     (let g' = fold (pair_step rnd now ss r) [0..<matchesPerRound] g
      in g'\<lparr>teamPool := rotate_pool (teamPool g')\<rparr>)"

definition generate ::
  "(nat \<Rightarrow> real) \<Rightarrow> (nat \<Rightarrow> nat) \<Rightarrow> Stadium list \<Rightarrow> Team list \<Rightarrow> Match list" where
  "generate rnd now ss ts =
     (let tp = (if length ts mod 2 \<noteq> 0 then ts @ [BYE] else ts);
          numRounds = length tp - 1;
          matchesPerRound = length tp div 2
      in g_matches (fold (round_step rnd now ss matchesPerRound) [0..<numRounds]
                     \<lparr>teamPool = tp, g_matches = [], draws = 0\<rparr>))"

text \<open>
  The handler either refuses (the alert \<^verbatim>\<open>Need at least 2 teams!\<close>) and leaves the
  tournament as it is, or hands the tournament with the new match list to
  \<^verbatim>\<open>onUpdateTournament\<close>. The second component is the tournament afterwards.
\<close>

datatype error = InsufficientTeams

definition handleGenerateSchedule ::
  "(nat \<Rightarrow> real) \<Rightarrow> (nat \<Rightarrow> nat) \<Rightarrow> Tournament \<Rightarrow> (error + unit) \<times> Tournament" where
  "handleGenerateSchedule rnd now t =
     (if length (teams t) < 2 then (Inl InsufficientTeams, t)
      else (Inr (),
            t\<lparr>matches := generate rnd now (stadiums t) (teams t),
              tr_status := Some UPCOMING\<rparr>))"

section \<open>Reference definitions\<close>

text \<open>
  The points of one match as the specification words them: a win gives
  \<open>pointsForWin\<close>; a tie, a no-result or an abandoned match gives \<open>pointsForDraw\<close>;
  anything else is a loss and gives \<open>pointsForLoss\<close>.
\<close>

definition spec_points :: "TournamentConfig \<Rightarrow> bool \<Rightarrow> MatchResultType option \<Rightarrow> real" where
  "spec_points cfg isT1 res =
     (case res of
        Some T1_WIN \<Rightarrow> if isT1 then pointsForWin cfg else pointsForLoss cfg
      | Some T2_WIN \<Rightarrow> if isT1 then pointsForLoss cfg else pointsForWin cfg
      | Some TIE \<Rightarrow> pointsForDraw cfg
      | Some NO_RESULT \<Rightarrow> pointsForDraw cfg
      | Some ABANDONED \<Rightarrow> pointsForDraw cfg
      | _ \<Rightarrow> pointsForLoss cfg)"

text \<open>
  The ranking order as the specification words it: points, then net run rate, then
  wins, all descending, then the name ascending in the collation \<open>lc\<close>.
\<close>

definition ranks_before :: "(string \<Rightarrow> string \<Rightarrow> int) \<Rightarrow> Standing \<Rightarrow> Standing \<Rightarrow> bool" where
  "ranks_before lc a b \<longleftrightarrow>
     r_pts a > r_pts b
     \<or> (r_pts a = r_pts b \<and>
         (r_nrr a > r_nrr b
          \<or> (r_nrr a = r_nrr b \<and>
              (r_mw a > r_mw b
               \<or> (r_mw a = r_mw b \<and> lc (t_name (r_team a)) (t_name (r_team b)) < 0)))))"

text \<open>
  What is asked of \<open>lc\<close>, as of any comparison function handed to a sort: its sign
  flips when its arguments are swapped, and not being greater is transitive. It may be 0
  on two different strings. \<open>lex_compare\<close>, the order of the character codes, is such
  a comparison and is 0 on equal strings only; \<open>ignoring_compare\<close> is such a comparison
  that leaves the soft hyphen (code 173) out of account, as the collation of a host
  does, and is 0 on \<open>Alpha\<close> and \<open>Alpha\<close> followed by a soft hyphen.
\<close>

definition consistent :: "(string \<Rightarrow> string \<Rightarrow> int) \<Rightarrow> bool" where
  "consistent lc \<longleftrightarrow>
     (\<forall>a b. lc a b < 0 \<longleftrightarrow> 0 < lc b a)
     \<and> (\<forall>a b c. lc a b \<le> 0 \<and> lc b c \<le> 0 \<longrightarrow> lc a c \<le> 0)"

fun lex_compare :: "string \<Rightarrow> string \<Rightarrow> int" where
  "lex_compare [] [] = 0"
| "lex_compare [] (y # ys) = - 1"
| "lex_compare (x # xs) [] = 1"
| "lex_compare (x # xs) (y # ys) =
     (if (of_char x :: nat) < of_char y then - 1
      else if (of_char y :: nat) < of_char x then 1
      else lex_compare xs ys)"

definition soft_hyphen :: char where
  "soft_hyphen = char_of (173 :: nat)"

definition ignoring_compare :: "string \<Rightarrow> string \<Rightarrow> int" where
  "ignoring_compare a b =
     lex_compare (filter (\<lambda>c. c \<noteq> soft_hyphen) a) (filter (\<lambda>c. c \<noteq> soft_hyphen) b)"

text \<open>
  The won-test of the outcome chain and the form code of a result, as the specification
  words them.
\<close>

definition spec_won :: "bool \<Rightarrow> MatchResultType option \<Rightarrow> bool" where
  "spec_won isT1 res \<longleftrightarrow> (isT1 \<and> res = Some T1_WIN) \<or> (\<not> isT1 \<and> res = Some T2_WIN)"

definition spec_code :: "bool \<Rightarrow> MatchResultType option \<Rightarrow> string" where
  "spec_code isT1 res =
     (if spec_won isT1 res then ''W''
      else if res = Some TIE then ''T''
      else if res = Some NO_RESULT \<or> res = Some ABANDONED then ''NR''
      else ''L'')"

text \<open>The id that the creation form gives the team of slot \<open>i\<close>: \<^verbatim>\<open>team-${i}\<close>.\<close>

definition slot_id :: "nat \<Rightarrow> string" where
  "slot_id i = ''team-'' @ show_nat i"

subsection \<open>The schedule as a list of pairings\<close>

text \<open>
  What identifies a fixture: its round and its two sides. \<open>schedule_pairings\<close> is the
  list of the fixtures that the loops of the generator create, without the state.
\<close>

definition pairing :: "Match \<Rightarrow> nat \<times> string \<times> string" where
  "pairing m = (m_round m, team1Id m, team2Id m)"

definition pool_of :: "Team list \<Rightarrow> Team list" where
  "pool_of ts = (if length ts mod 2 \<noteq> 0 then ts @ [BYE] else ts)"

definition round_pairings :: "nat \<Rightarrow> Team list \<Rightarrow> nat list \<Rightarrow> (nat \<times> string \<times> string) list" where
  "round_pairings r tp ms =
     map (\<lambda>m. (r + 1, t_id (tp ! m), t_id (tp ! (length tp - 1 - m))))
       (filter (\<lambda>m. t_id (tp ! m) \<noteq> ''BYE'' \<and> t_id (tp ! (length tp - 1 - m)) \<noteq> ''BYE'') ms)"

definition schedule_pairings :: "Team list \<Rightarrow> (nat \<times> string \<times> string) list" where
  "schedule_pairings ts =
     concat (map (\<lambda>r. round_pairings r ((rotate_pool ^^ r) (pool_of ts))
                       [0..<length (pool_of ts) div 2])
               [0..<length (pool_of ts) - 1])"

text \<open>
  \<open>seat n r i\<close> is the original position of the element that sits at position \<open>i\<close>
  of a pool of \<open>n\<close> elements after \<open>r\<close> rotations; \<open>meeting n (r, m)\<close> is the pair of
  original positions that pairing \<open>m\<close> of round \<open>r\<close> puts together. \<open>played n N\<close> keeps
  the pairings of two positions below \<open>N\<close>, those without the bye placeholder.
\<close>

definition seat :: "nat \<Rightarrow> nat \<Rightarrow> nat \<Rightarrow> nat" where
  "seat n r i = (if i = 0 then 0 else 1 + nat ((int i - 1 - int r) mod (int n - 1)))"

definition meeting :: "nat \<Rightarrow> nat \<times> nat \<Rightarrow> nat set" where
  "meeting n s = {seat n (fst s) (snd s), seat n (fst s) (n - 1 - snd s)}"

definition slots :: "nat \<Rightarrow> (nat \<times> nat) list" where
  "slots n = List.product [0..<n - 1] [0..<n div 2]"

definition played :: "nat \<Rightarrow> nat \<Rightarrow> (nat \<times> nat) list" where
  "played n N = filter (\<lambda>s. meeting n s \<subseteq> {0..<N}) (slots n)"

definition fixture :: "Team list \<Rightarrow> nat \<times> nat \<Rightarrow> nat \<times> string \<times> string" where
  "fixture tp s =
     (fst s + 1, t_id (tp ! seat (length tp) (fst s) (snd s)),
      t_id (tp ! seat (length tp) (fst s) (length tp - 1 - snd s)))"

text \<open>A created match is at one of the stadiums or at the placeholder, and not started.\<close>

definition placed :: "Stadium list \<Rightarrow> Match \<Rightarrow> bool" where
  "placed ss m \<longleftrightarrow> venueId m \<in> set (''neutral'' # map s_id ss) \<and> status m = NOT_STARTED"

section \<open>Example data\<close>

text \<open>
  A configuration of 20 overs with 2, 1 and 0 points, a \<open>parseFloat\<close> that reads the
  string \<open>20\<close>, and completed matches given by the two sides' runs, wickets and overs.
\<close>

definition ex_cfg :: TournamentConfig where
  "ex_cfg = \<lparr>oversPerMatch = ''20'', pointsForWin = 2, pointsForDraw = 1, pointsForLoss = 0\<rparr>"

definition ex_pf :: "string \<Rightarrow> real option" where
  "ex_pf s = (if s = ''20'' then Some 20 else None)"

definition ex_team :: "string \<Rightarrow> string \<Rightarrow> Team" where
  "ex_team i n = \<lparr>t_id = i, t_name = n, logoUrl = None, owner = None\<rparr>"

definition ex_match ::
  "string \<Rightarrow> string \<Rightarrow> MatchResultType \<Rightarrow> real option \<times> real option \<times> real option
     \<Rightarrow> real option \<times> real option \<times> real option \<Rightarrow> Match" where
  "ex_match i1 i2 res s1 s2 =
     \<lparr>m_id = ''M'', m_round = 1, team1Id = i1, team2Id = i2, venueId = ''neutral'',
      status = COMPLETED, resultType = Some res, m_notes = None,
      t1Runs = fst s1, t1Wickets = fst (snd s1), t1Overs = snd (snd s1),
      t2Runs = fst s2, t2Wickets = fst (snd s2), t2Overs = snd (snd s2),
      tossWinnerId = None, isDlsApplied = None\<rparr>"

text \<open>Alpha has won twice and carries a penalty of 5 points.\<close>

definition ex_penalised :: Tournament where
  "ex_penalised =
     \<lparr>tr_id = ''1'', tr_name = ''Cup'', tr_status = Some ONGOING,
      teams = [ex_team ''a'' ''Alpha'', ex_team ''b'' ''Bravo'', ex_team ''c'' ''Charlie''],
      stadiums = [],
      matches = [ex_match ''a'' ''b'' T1_WIN (None, None, None) (None, None, None),
                 ex_match ''c'' ''a'' T2_WIN (None, None, None) (None, None, None)],
      penalties = [\<lparr>p_id = ''p1'', teamId = ''a'', p_points = 5, reason = ''slow over rate'',
                    date = ''2024-01-01''\<rparr>],
      config = ex_cfg\<rparr>"

text \<open>
  Alpha has tied twice, Bravo has won once and lost once: 2 points each, and a net run
  rate of 0 each.
\<close>

definition ex_level :: Tournament where
  "ex_level =
     \<lparr>tr_id = ''2'', tr_name = ''League'', tr_status = Some ONGOING,
      teams = [ex_team ''a'' ''Alpha'', ex_team ''b'' ''Bravo'', ex_team ''c'' ''Charlie'',
               ex_team ''d'' ''Delta''],
      stadiums = [],
      matches = [ex_match ''a'' ''c'' TIE (Some 100, Some 5, Some 20) (Some 100, Some 5, Some 20),
                 ex_match ''a'' ''d'' TIE (Some 100, Some 5, Some 20) (Some 100, Some 5, Some 20),
                 ex_match ''b'' ''c'' T1_WIN (Some 120, Some 4, Some 20) (Some 100, Some 6, Some 20),
                 ex_match ''d'' ''b'' T1_WIN (Some 120, Some 4, Some 20) (Some 100, Some 6, Some 20)],
      penalties = [],
      config = ex_cfg\<rparr>"

text \<open>Five teams and two stadiums; two teams and two stadiums.\<close>

definition ex_five :: Tournament where
  "ex_five =
     \<lparr>tr_id = ''3'', tr_name = ''Shield'', tr_status = None,
      teams = [ex_team ''team-0'' ''Alpha'', ex_team ''team-1'' ''Bravo'',
               ex_team ''team-2'' ''Charlie'', ex_team ''team-3'' ''Delta'',
               ex_team ''team-4'' ''Echo''],
      stadiums = [\<lparr>s_id = ''s1'', s_name = ''Oval''\<rparr>, \<lparr>s_id = ''s2'', s_name = ''Park''\<rparr>],
      matches = [], penalties = [], config = ex_cfg\<rparr>"

definition ex_duel :: Tournament where
  "ex_duel =
     \<lparr>tr_id = ''5'', tr_name = ''Duel'', tr_status = None,
      teams = [ex_team ''team-0'' ''Alpha'', ex_team ''team-1'' ''Bravo''],
      stadiums = [\<lparr>s_id = ''s1'', s_name = ''Oval''\<rparr>, \<lparr>s_id = ''s2'', s_name = ''Park''\<rparr>],
      matches = [], penalties = [], config = ex_cfg\<rparr>"

text \<open>Two teams without matches whose names differ in a soft hyphen only.\<close>

definition ex_twins :: Tournament where
  "ex_twins =
     \<lparr>tr_id = ''6'', tr_name = ''Twins'', tr_status = None,
      teams = [ex_team ''team-0'' ''Alpha'', ex_team ''team-1'' (''Alpha'' @ [soft_hyphen])],
      stadiums = [], matches = [], penalties = [], config = ex_cfg\<rparr>"

section \<open>Properties of the true-overs conversion\<close>

lemma toTrueOvers_digit:
  assumes "b \<le> 9"
  shows "toTrueOvers (real n + real b / 10) = real n + real (min b 6) / 6"
proof -
  have fl: "\<lfloor>real n + real b / 10\<rfloor> = int n"
    using assms by (simp add: floor_eq_iff)
  have rd: "Math_round (real b) = int b"
    unfolding Math_round_def by (simp add: floor_eq_iff)
  have "toTrueOvers (real n + real b / 10) = real n + real_of_int (min (int b) 6) / 6"
    by (simp add: toTrueOvers_def Let_def fl rd)
  also have "real_of_int (min (int b) 6) = real (min b 6)"
    by (simp add: min_def)
  finally show ?thesis .
qed

text \<open>
  C4. For an overs value written as whole overs and a ball digit, \<open>n.b\<close> with
  \<open>b \<le> 9\<close>, the conversion returns \<open>n + min b 6 / 6\<close>; for every overs value it
  returns the integer part plus the rounded tenfold fractional part, capped at 6,
  divided by 6. 19.4 maps to within 0.001 of 19.667, 20.0 to 20 and 0.6 to 1.
\<close>

theorem toTrueOvers_spec:
  "(\<forall>x. toTrueOvers x =
        of_int \<lfloor>x\<rfloor> + of_int (min (Math_round (10 * (x - of_int \<lfloor>x\<rfloor>))) 6) / 6)
   \<and> (\<forall>n b. b \<le> 9 \<longrightarrow> toTrueOvers (real n + real b / 10) = real n + real (min b 6) / 6)
   \<and> \<bar>toTrueOvers (194 / 10) - 19667 / 1000\<bar> < 1 / 1000
   \<and> toTrueOvers 20 = 20
   \<and> toTrueOvers (6 / 10) = 1"
proof -
  have a: "\<forall>x. toTrueOvers x =
        of_int \<lfloor>x\<rfloor> + of_int (min (Math_round (10 * (x - of_int \<lfloor>x\<rfloor>))) 6) / 6"
    by (simp add: toTrueOvers_def Let_def mult.commute)
  have b: "\<forall>n b. b \<le> 9 \<longrightarrow> toTrueOvers (real n + real b / 10) = real n + real (min b 6) / 6"
    using toTrueOvers_digit by blast
  have c: "toTrueOvers (194 / 10) = 19 + 4 / 6"
    using toTrueOvers_digit [of 4 19] by simp
  have d: "toTrueOvers 20 = 20"
    using toTrueOvers_digit [of 0 20] by simp
  have e: "toTrueOvers (6 / 10) = 1"
    using toTrueOvers_digit [of 6 0] by simp
  have c': "\<bar>toTrueOvers (194 / 10) - 19667 / 1000\<bar> < 1 / 1000"
    unfolding c by simp
  from a b c' d e show ?thesis by blast
qed

theorem toTrueOvers_spec_witness:
  "(3::nat) \<le> 9 \<and> toTrueOvers (real (7::nat) + real (3::nat) / 10) = 7 + 3 / 6"
proof -
  have h: "(3::nat) \<le> 9" by simp
  from toTrueOvers_spec [THEN conjunct2, THEN conjunct1, rule_format, where n = 7 and b = 3, OF h]
  show ?thesis by simp
qed

section \<open>Properties of the standings computation\<close>

subsection \<open>One match on the ledger of a team\<close>

lemma add_outcome_pts: "pts (add_outcome cfg isT1 res a) = pts a + spec_points cfg isT1 res"
  by (cases res; (cases "the res")?) (auto simp: add_outcome_def spec_points_def)

lemma add_outcome_totals [simp]:
  "totalRunsScored (add_outcome cfg isT1 res a) = totalRunsScored a"
  "totalTrueOversFaced (add_outcome cfg isT1 res a) = totalTrueOversFaced a"
  "totalRunsConceded (add_outcome cfg isT1 res a) = totalRunsConceded a"
  "totalTrueOversBowled (add_outcome cfg isT1 res a) = totalTrueOversBowled a"
  "mp (add_outcome cfg isT1 res a) = mp a"
  by (simp_all add: add_outcome_def)

lemma add_innings_counters [simp]:
  "mp (add_innings mo isT1 m a) = mp a"
  "mw (add_innings mo isT1 m a) = mw a"
  "ml (add_innings mo isT1 m a) = ml a"
  "mt (add_innings mo isT1 m a) = mt a"
  "nr (add_innings mo isT1 m a) = nr a"
  "pts (add_innings mo isT1 m a) = pts a"
  "form (add_innings mo isT1 m a) = form a"
  by (simp_all add: add_innings_def Let_def)

lemma tally_counters:
  "mp (tally pf cfg team m a) = mp a + 1"
  "pts (tally pf cfg team m a) = pts a + spec_points cfg (team1Id m = t_id team) (resultType m)"
  "mw (tally pf cfg team m a) = mw (add_outcome cfg (team1Id m = t_id team) (resultType m) a)"
  "ml (tally pf cfg team m a) = ml (add_outcome cfg (team1Id m = t_id team) (resultType m) a)"
  "mt (tally pf cfg team m a) = mt (add_outcome cfg (team1Id m = t_id team) (resultType m) a)"
  "nr (tally pf cfg team m a) = nr (add_outcome cfg (team1Id m = t_id team) (resultType m) a)"
  "form (tally pf cfg team m a) = form (add_outcome cfg (team1Id m = t_id team) (resultType m) a)"
  by (simp_all add: tally_def Let_def add_outcome_pts) (simp_all add: add_outcome_def)

text \<open>
  C10. A match whose result is \<open>DRAW\<close> falls through to the last branch of the outcome
  chain for either side: for any team the loss counter goes up by one, the points by
  \<open>pointsForLoss\<close>, and \<open>L\<close> is appended to the form; wins, ties and no-results stay.
\<close>

theorem draw_counts_as_loss:
  assumes "resultType m = Some DRAW"
  shows "ml (tally pf cfg team m a) = ml a + 1
       \<and> pts (tally pf cfg team m a) = pts a + pointsForLoss cfg
       \<and> form (tally pf cfg team m a) = form a @ [''L'']
       \<and> mw (tally pf cfg team m a) = mw a
       \<and> mt (tally pf cfg team m a) = mt a
       \<and> nr (tally pf cfg team m a) = nr a
       \<and> mp (tally pf cfg team m a) = mp a + 1"
  using assms by (simp add: tally_counters spec_points_def add_outcome_def)

theorem draw_counts_as_loss_witness:
  "resultType (ex_match ''a'' ''b'' DRAW (Some 200, Some 10, Some 50) (Some 180, Some 7, Some 50))
     = Some DRAW
   \<and> ml (tally ex_pf ex_cfg (ex_team ''a'' ''Alpha'')
        (ex_match ''a'' ''b'' DRAW (Some 200, Some 10, Some 50) (Some 180, Some 7, Some 50))
        ledger0) = 1
   \<and> ml (tally ex_pf ex_cfg (ex_team ''b'' ''Bravo'')
        (ex_match ''a'' ''b'' DRAW (Some 200, Some 10, Some 50) (Some 180, Some 7, Some 50))
        ledger0) = 1
   \<and> form (tally ex_pf ex_cfg (ex_team ''b'' ''Bravo'')
        (ex_match ''a'' ''b'' DRAW (Some 200, Some 10, Some 50) (Some 180, Some 7, Some 50))
        ledger0) = [''L'']"
proof -
  let ?m = "ex_match ''a'' ''b'' DRAW (Some 200, Some 10, Some 50) (Some 180, Some 7, Some 50)"
  have h: "resultType ?m = Some DRAW" by (simp add: ex_match_def)
  from draw_counts_as_loss [OF h, of ex_pf ex_cfg "ex_team ''a'' ''Alpha''" ledger0]
    draw_counts_as_loss [OF h, of ex_pf ex_cfg "ex_team ''b'' ''Bravo''" ledger0] h
  show ?thesis by (simp add: ledger0_def)
qed

lemma ex_maxO: "maxO ex_pf ex_cfg = 20"
  by (simp add: maxO_def ex_pf_def ex_cfg_def or0_def)

lemma tally_totals_guarded:
  assumes "resultType m \<noteq> Some ABANDONED" "resultType m \<noteq> Some NO_RESULT"
    "t1Runs m \<noteq> None" "t2Runs m \<noteq> None"
  shows "totalRunsScored (tally pf cfg team m a) =
           totalRunsScored (add_innings (maxO pf cfg) (team1Id m = t_id team) m a)"
    "totalRunsConceded (tally pf cfg team m a) =
           totalRunsConceded (add_innings (maxO pf cfg) (team1Id m = t_id team) m a)"
    "totalTrueOversFaced (tally pf cfg team m a) =
           totalTrueOversFaced (add_innings (maxO pf cfg) (team1Id m = t_id team) m a)"
    "totalTrueOversBowled (tally pf cfg team m a) =
           totalTrueOversBowled (add_innings (maxO pf cfg) (team1Id m = t_id team) m a)"
  using assms by (simp_all add: tally_def Let_def add_innings_def)

lemma tally_totals_skipped:
  assumes "resultType m = Some ABANDONED \<or> resultType m = Some NO_RESULT
    \<or> t1Runs m = None \<or> t2Runs m = None"
  shows "totalRunsScored (tally pf cfg team m a) = totalRunsScored a"
    "totalRunsConceded (tally pf cfg team m a) = totalRunsConceded a"
    "totalTrueOversFaced (tally pf cfg team m a) = totalTrueOversFaced a"
    "totalTrueOversBowled (tally pf cfg team m a) = totalTrueOversBowled a"
  using assms by (auto simp add: tally_def Let_def)

lemma nullish_10 [simp]: "(nullish w (0::real) = 10) = (w = Some 10)"
  by (cases w) (simp_all add: nullish_def)

text \<open>
  C5. In a match that enters the net-run-rate ledger, a side with 10 wickets down is
  credited with the overs limit \<open>maxO\<close> of the configuration, whatever overs were
  recorded: the team's overs faced when its own wickets are 10, its overs bowled when
  the opponent's are 10, each on its own. Otherwise the overs bowled are the true overs
  of the opponent's recorded overs, and the first side's overs faced those of its own.
\<close>

theorem all_out_uses_overs_limit:
  assumes "resultType m \<noteq> Some ABANDONED" "resultType m \<noteq> Some NO_RESULT"
    "t1Runs m \<noteq> None" "t2Runs m \<noteq> None"
  shows "((if team1Id m = t_id team then t1Wickets m else t2Wickets m) = Some 10 \<longrightarrow>
            totalTrueOversFaced (tally pf cfg team m a) = totalTrueOversFaced a + maxO pf cfg)
       \<and> ((if team1Id m = t_id team then t2Wickets m else t1Wickets m) = Some 10 \<longrightarrow>
            totalTrueOversBowled (tally pf cfg team m a) = totalTrueOversBowled a + maxO pf cfg)
       \<and> ((if team1Id m = t_id team then t2Wickets m else t1Wickets m) \<noteq> Some 10 \<longrightarrow>
            totalTrueOversBowled (tally pf cfg team m a) =
              totalTrueOversBowled a
              + toTrueOvers (nullish (if team1Id m = t_id team then t2Overs m else t1Overs m) 0))
       \<and> (team1Id m = t_id team \<and> t1Wickets m \<noteq> Some 10 \<longrightarrow>
            totalTrueOversFaced (tally pf cfg team m a) =
              totalTrueOversFaced a + toTrueOvers (nullish (t1Overs m) 0))"
  by (simp add: tally_totals_guarded [OF assms] add_innings_def Let_def)

theorem all_out_uses_overs_limit_witness:
  "totalTrueOversFaced
     (tally ex_pf ex_cfg (ex_team ''b'' ''Bravo'')
        (ex_match ''a'' ''b'' T1_WIN (Some 150, Some 4, Some 20) (Some 90, Some 10, Some (143 / 10)))
        ledger0) = 20
   \<and> totalTrueOversBowled
     (tally ex_pf ex_cfg (ex_team ''a'' ''Alpha'')
        (ex_match ''a'' ''b'' T1_WIN (Some 150, Some 4, Some 20) (Some 90, Some 10, Some (143 / 10)))
        ledger0) = 20"
proof -
  let ?m = "ex_match ''a'' ''b'' T1_WIN (Some 150, Some 4, Some 20) (Some 90, Some 10, Some (143 / 10))"
  have g: "resultType ?m \<noteq> Some ABANDONED" "resultType ?m \<noteq> Some NO_RESULT"
    "t1Runs ?m \<noteq> None" "t2Runs ?m \<noteq> None"
    by (simp_all add: ex_match_def)
  have w: "t2Wickets ?m = Some 10" "team1Id ?m = ''a''" by (simp_all add: ex_match_def)
  from all_out_uses_overs_limit [OF g, of "ex_team ''b'' ''Bravo''" ex_pf ex_cfg ledger0]
    all_out_uses_overs_limit [OF g, of "ex_team ''a'' ''Alpha''" ex_pf ex_cfg ledger0]
  show ?thesis
    by (simp add: w ex_team_def ex_maxO ledger0_def)
qed

text \<open>
  C2. The overs faced by the second side are read from the first side's overs
  (\<open>oS\<close> takes \<open>t1Overs\<close> in both branches). Bravo chases 121 in 15.2 overs against
  Alpha's 120 in 20: Bravo's ledger gets 20 overs faced, not 15 and 2 balls, its net run
  rate is 1/20, and Alpha's is -87/46, not the negative of it.
\<close>

theorem chasing_side_overs_faced:
  "totalTrueOversFaced
     (tally ex_pf ex_cfg (ex_team ''b'' ''Bravo'')
        (ex_match ''a'' ''b'' T2_WIN (Some 120, Some 6, Some 20) (Some 121, Some 3, Some (152 / 10)))
        ledger0) = 20
   \<and> toTrueOvers (152 / 10) = 15 + 2 / 6
   \<and> net_run_rate
     (tally ex_pf ex_cfg (ex_team ''b'' ''Bravo'')
        (ex_match ''a'' ''b'' T2_WIN (Some 120, Some 6, Some 20) (Some 121, Some 3, Some (152 / 10)))
        ledger0) = 1 / 20
   \<and> net_run_rate
     (tally ex_pf ex_cfg (ex_team ''a'' ''Alpha'')
        (ex_match ''a'' ''b'' T2_WIN (Some 120, Some 6, Some 20) (Some 121, Some 3, Some (152 / 10)))
        ledger0) = - (87 / 46)"
proof -
  have t1: "toTrueOvers 20 = 20" using toTrueOvers_digit [of 0 20] by simp
  have t2: "toTrueOvers (76 / 5) = 46 / 3" using toTrueOvers_digit [of 2 15] by simp
  show ?thesis
    by (simp add: tally_def Let_def add_innings_def add_outcome_def ex_match_def ex_team_def ledger0_def
        nullish_def net_run_rate_def t1 t2)
qed

lemma fold_tally_pts:
  "pts (fold (tally pf cfg team) ms a) =
     pts a + (\<Sum>m\<leftarrow>ms. spec_points cfg (team1Id m = t_id team) (resultType m))"
  by (induction ms arbitrary: a) (simp_all add: tally_counters)

lemma foldl_plus_sum_list:
  "foldl (\<lambda>s p. s + f p) a ps = a + (\<Sum>p\<leftarrow>ps. (f p :: real))"
  by (induction ps arbitrary: a) simp_all

lemma or0_id [simp]: "or0 x = x"
  by (simp add: or0_def)

lemma penPts_sum:
  "penPts t team = (\<Sum>p\<leftarrow>filter (\<lambda>p. teamId p = t_id team) (penalties t). p_points p)"
  by (simp add: penPts_def foldl_plus_sum_list)

text \<open>
  C6. The points of a team's row are the points of its completed matches less the sum
  of its penalties, and 0 when that is negative; they are never negative. Alpha, with
  two wins at 2 points and a penalty of 5, has 0 points.
\<close>

theorem points_floor:
  "r_pts (team_row pf t team) =
     max 0 ((\<Sum>m\<leftarrow>team_matches t team.
               spec_points (config t) (team1Id m = t_id team) (resultType m))
            - (\<Sum>p\<leftarrow>filter (\<lambda>p. teamId p = t_id team) (penalties t). p_points p))
   \<and> 0 \<le> r_pts (team_row pf t team)
   \<and> r_mw (team_row ex_pf ex_penalised (ex_team ''a'' ''Alpha'')) = 2
   \<and> r_pts (team_row ex_pf ex_penalised (ex_team ''a'' ''Alpha'')) = 0"
proof -
  have a: "r_pts (team_row pf t team) =
     max 0 ((\<Sum>m\<leftarrow>team_matches t team.
               spec_points (config t) (team1Id m = t_id team) (resultType m))
            - (\<Sum>p\<leftarrow>filter (\<lambda>p. teamId p = t_id team) (penalties t). p_points p))"
    for pf t team
    by (simp add: team_row_def Let_def fold_tally_pts penPts_sum ledger0_def)
  have b: "0 \<le> r_pts (team_row pf t team)"
    by (simp add: team_row_def Let_def)
  have c: "r_pts (team_row ex_pf ex_penalised (ex_team ''a'' ''Alpha'')) = 0"
    unfolding a
    by (simp add: ex_penalised_def team_matches_def ex_match_def ex_team_def ex_cfg_def
        spec_points_def)
  have d: "r_mw (team_row ex_pf ex_penalised (ex_team ''a'' ''Alpha'')) = 2"
    by (simp add: team_row_def Let_def ex_penalised_def team_matches_def ex_match_def
        ex_team_def tally_counters add_outcome_def ledger0_def)
  from a b c d show ?thesis by blast
qed

theorem points_floor_witness:
  "r_pts (team_row ex_pf ex_level (ex_team ''d'' ''Delta'')) = 3"
  using points_floor [of ex_pf ex_level "ex_team ''d'' ''Delta''"]
  by (simp add: ex_level_def team_matches_def ex_match_def ex_team_def ex_cfg_def
      spec_points_def)

text \<open>
  A completed match with both run totals and neither wickets nor overs still enters the
  ledger: the runs are added, and the missing overs count as 0.
\<close>

theorem missing_overs_counterexample:
  "status (ex_match ''a'' ''b'' T1_WIN (Some 100, None, None) (Some 90, None, None)) = COMPLETED
   \<and> t1Overs (ex_match ''a'' ''b'' T1_WIN (Some 100, None, None) (Some 90, None, None)) = None
   \<and> totalRunsScored ledger0 = 0
   \<and> totalRunsScored
       (tally ex_pf ex_cfg (ex_team ''a'' ''Alpha'')
          (ex_match ''a'' ''b'' T1_WIN (Some 100, None, None) (Some 90, None, None)) ledger0) = 100
   \<and> totalRunsConceded
       (tally ex_pf ex_cfg (ex_team ''a'' ''Alpha'')
          (ex_match ''a'' ''b'' T1_WIN (Some 100, None, None) (Some 90, None, None)) ledger0) = 90"
  by (simp add: tally_def Let_def add_innings_def ex_match_def ex_team_def ledger0_def nullish_def)

subsection \<open>The rows of the standings\<close>

lemma r_team_team_row [simp]: "r_team (team_row pf t team) = team"
  by (simp add: team_row_def Let_def)

lemma set_insert_by: "set (insert_by c x ys) = insert x (set ys)"
  by (induction ys) auto

lemma mset_insert_by: "mset (insert_by c x ys) = add_mset x (mset ys)"
  by (induction ys) auto

lemma mset_sort_by: "mset (sort_by c xs) = mset xs"
  by (induction xs) (simp_all add: sort_by_def mset_insert_by)

lemma add_outcome_counters:
  "mw (add_outcome cfg isT1 res a) = mw a + (if spec_won isT1 res then 1 else 0)"
  "mt (add_outcome cfg isT1 res a) = mt a + (if res = Some TIE then 1 else 0)"
  "nr (add_outcome cfg isT1 res a) =
     nr a + (if res = Some NO_RESULT \<or> res = Some ABANDONED then 1 else 0)"
  "ml (add_outcome cfg isT1 res a) =
     ml a + (if spec_won isT1 res \<or> res = Some TIE \<or> res = Some NO_RESULT
                \<or> res = Some ABANDONED then 0 else 1)"
  "form (add_outcome cfg isT1 res a) = form a @ [spec_code isT1 res]"
  by (auto simp: add_outcome_def spec_won_def spec_code_def)

lemma standings_teams: "mset (map r_team (standings pf lc t)) = mset (teams t)"
  by (simp add: standings_def mset_sort_by image_mset.compositionality comp_def)

text \<open>
  C8. A match in which a side's run total is missing leaves the four totals of the
  ledger as they are, and is still counted by its result: played goes up by one; wins go
  up by one exactly when the team's side won, ties exactly on a tie, no-results exactly
  on a no-result or an abandoned match, and losses exactly otherwise; the points and the
  form code of that outcome are added. A completed match of the team is among the matches
  the team is tallied on. Every optional field is read behind a test against
  \<^verbatim>\<open>undefined\<close> or with a default, so the computation has no failing path: whatever
  the matches hold, the standings have one row for every team.
\<close>

theorem missing_runs_contribute_nothing:
  assumes "t1Runs m = None \<or> t2Runs m = None"
  shows "totalRunsScored (tally pf cfg team m a) = totalRunsScored a
       \<and> totalTrueOversFaced (tally pf cfg team m a) = totalTrueOversFaced a
       \<and> totalRunsConceded (tally pf cfg team m a) = totalRunsConceded a
       \<and> totalTrueOversBowled (tally pf cfg team m a) = totalTrueOversBowled a
       \<and> mp (tally pf cfg team m a) = mp a + 1
       \<and> mw (tally pf cfg team m a) =
           mw a + (if spec_won (team1Id m = t_id team) (resultType m) then 1 else 0)
       \<and> mt (tally pf cfg team m a) = mt a + (if resultType m = Some TIE then 1 else 0)
       \<and> nr (tally pf cfg team m a) =
           nr a + (if resultType m = Some NO_RESULT \<or> resultType m = Some ABANDONED
                   then 1 else 0)
       \<and> ml (tally pf cfg team m a) =
           ml a + (if spec_won (team1Id m = t_id team) (resultType m)
                      \<or> resultType m = Some TIE \<or> resultType m = Some NO_RESULT
                      \<or> resultType m = Some ABANDONED then 0 else 1)
       \<and> pts (tally pf cfg team m a) =
           pts a + spec_points cfg (team1Id m = t_id team) (resultType m)
       \<and> form (tally pf cfg team m a) =
           form a @ [spec_code (team1Id m = t_id team) (resultType m)]
       \<and> (m \<in> set (matches t) \<and> status m = COMPLETED
            \<and> (team1Id m = t_id team \<or> team2Id m = t_id team)
          \<longrightarrow> m \<in> set (team_matches t team))
       \<and> mset (map r_team (standings pf lc t)) = mset (teams t)"
proof -
  from assms have s: "resultType m = Some ABANDONED \<or> resultType m = Some NO_RESULT
    \<or> t1Runs m = None \<or> t2Runs m = None" by blast
  have c: "mw (tally pf cfg team m a) =
           mw a + (if spec_won (team1Id m = t_id team) (resultType m) then 1 else 0)"
    "mt (tally pf cfg team m a) = mt a + (if resultType m = Some TIE then 1 else 0)"
    "nr (tally pf cfg team m a) =
           nr a + (if resultType m = Some NO_RESULT \<or> resultType m = Some ABANDONED
                   then 1 else 0)"
    "ml (tally pf cfg team m a) =
           ml a + (if spec_won (team1Id m = t_id team) (resultType m)
                      \<or> resultType m = Some TIE \<or> resultType m = Some NO_RESULT
                      \<or> resultType m = Some ABANDONED then 0 else 1)"
    "form (tally pf cfg team m a) =
           form a @ [spec_code (team1Id m = t_id team) (resultType m)]"
    by (simp_all only: tally_counters add_outcome_counters)
  have i: "m \<in> set (matches t) \<and> status m = COMPLETED
            \<and> (team1Id m = t_id team \<or> team2Id m = t_id team)
          \<longrightarrow> m \<in> set (team_matches t team)"
    by (simp add: team_matches_def)
  show ?thesis
    by (intro conjI tally_totals_skipped [OF s] tally_counters(1,2) c i standings_teams)
qed

theorem missing_runs_contribute_nothing_witness:
  "t1Runs (ex_match ''a'' ''b'' T1_WIN (None, None, None) (Some 90, Some 10, Some 18)) = None
   \<and> totalRunsConceded
       (tally ex_pf ex_cfg (ex_team ''a'' ''Alpha'')
          (ex_match ''a'' ''b'' T1_WIN (None, None, None) (Some 90, Some 10, Some 18)) ledger0) = 0
   \<and> totalTrueOversBowled
       (tally ex_pf ex_cfg (ex_team ''a'' ''Alpha'')
          (ex_match ''a'' ''b'' T1_WIN (None, None, None) (Some 90, Some 10, Some 18)) ledger0) = 0
   \<and> mp (tally ex_pf ex_cfg (ex_team ''a'' ''Alpha'')
          (ex_match ''a'' ''b'' T1_WIN (None, None, None) (Some 90, Some 10, Some 18)) ledger0) = 1
   \<and> mw (tally ex_pf ex_cfg (ex_team ''a'' ''Alpha'')
          (ex_match ''a'' ''b'' T1_WIN (None, None, None) (Some 90, Some 10, Some 18)) ledger0) = 1
   \<and> ml (tally ex_pf ex_cfg (ex_team ''b'' ''Bravo'')
          (ex_match ''a'' ''b'' T1_WIN (None, None, None) (Some 90, Some 10, Some 18)) ledger0) = 1
   \<and> mw (tally ex_pf ex_cfg (ex_team ''b'' ''Bravo'')
          (ex_match ''a'' ''b'' T1_WIN (None, None, None) (Some 90, Some 10, Some 18)) ledger0) = 0
   \<and> pts (tally ex_pf ex_cfg (ex_team ''a'' ''Alpha'')
          (ex_match ''a'' ''b'' T1_WIN (None, None, None) (Some 90, Some 10, Some 18)) ledger0) = 2"
proof -
  let ?m = "ex_match ''a'' ''b'' T1_WIN (None, None, None) (Some 90, Some 10, Some 18)"
  have h: "t1Runs ?m = None \<or> t2Runs ?m = None" by (simp add: ex_match_def)
  have e: "t1Runs ?m = None" "team1Id ?m = ''a''" "resultType ?m = Some T1_WIN"
    by (simp_all add: ex_match_def)
  from missing_runs_contribute_nothing [OF h, of ex_pf ex_cfg "ex_team ''a'' ''Alpha''" ledger0]
    missing_runs_contribute_nothing [OF h, of ex_pf ex_cfg "ex_team ''b'' ''Bravo''" ledger0]
  show ?thesis
    by (simp add: e ledger0_def spec_points_def spec_won_def ex_team_def ex_cfg_def)
qed

subsection \<open>The comparison of rows and the sort\<close>

lemma lex_compare_eq: "lex_compare a b = 0 \<longleftrightarrow> a = b"
  by (induction a b rule: lex_compare.induct) auto

lemma lex_compare_anti: "lex_compare a b < 0 \<longleftrightarrow> 0 < lex_compare b a"
  by (induction a b rule: lex_compare.induct) auto

lemma lex_compare_trans:
  "lex_compare a b < 0 \<Longrightarrow> lex_compare b c < 0 \<Longrightarrow> lex_compare a c < 0"
proof (induction a b arbitrary: c rule: lex_compare.induct)
  case 1
  then show ?case by simp
next
  case (2 y ys)
  then show ?case by (cases c) simp_all
next
  case (3 x xs)
  then show ?case by simp
next
  case (4 x xs y ys)
  show ?case
  proof (cases c)
    case Nil
    with 4 show ?thesis by simp
  next
    case (Cons z zs)
    show ?thesis
    proof (cases "(of_char x :: nat) < of_char y")
      case True
      with 4(3) Cons have "(of_char x :: nat) < of_char z"
        by (simp split: if_splits)
      then show ?thesis using Cons by simp
    next
      case False
      with 4(2) have xy: "(of_char x :: nat) = of_char y" and r: "lex_compare xs ys < 0"
        by (simp_all split: if_splits)
      show ?thesis
      proof (cases "(of_char y :: nat) < of_char z")
        case True
        then show ?thesis using Cons xy by simp
      next
        case F2: False
        with 4(3) Cons have yz: "(of_char y :: nat) = of_char z" and r2: "lex_compare ys zs < 0"
          by (simp_all split: if_splits)
        from 4(1) [OF False _ r r2] xy have "lex_compare xs zs < 0" by simp
        then show ?thesis using Cons xy yz by simp
      qed
    qed
  qed
qed

lemma consistent_lex_compare: "consistent lex_compare"
proof -
  have "lex_compare a c \<le> 0" if "lex_compare a b \<le> 0" "lex_compare b c \<le> 0" for a b c
  proof (cases "lex_compare a b = 0 \<or> lex_compare b c = 0")
    case True
    with that show ?thesis by (auto simp: lex_compare_eq)
  next
    case False
    with that have "lex_compare a b < 0" "lex_compare b c < 0" by simp_all
    from lex_compare_trans [OF this] show ?thesis by simp
  qed
  then show ?thesis
    unfolding consistent_def using lex_compare_anti by blast
qed

lemma consistent_on_image:
  assumes "consistent lc"
  shows "consistent (\<lambda>a b. lc (f a) (f b))"
  using assms unfolding consistent_def by blast

lemma consistent_ignoring_compare: "consistent ignoring_compare"
proof -
  have e: "ignoring_compare = (\<lambda>a b. lex_compare (filter (\<lambda>c. c \<noteq> soft_hyphen) a)
      (filter (\<lambda>c. c \<noteq> soft_hyphen) b))"
    by (intro ext) (simp add: ignoring_compare_def)
  show ?thesis
    unfolding e by (rule consistent_on_image [OF consistent_lex_compare])
qed

lemma consistent_less_le:
  assumes "consistent lc" "lc a b < 0" "lc b c \<le> 0"
  shows "lc a c < 0"
proof (rule ccontr)
  assume "\<not> lc a c < 0"
  with assms(1) have "lc c a \<le> 0"
    unfolding consistent_def by (metis not_less)
  with assms(1,3) have "lc b a \<le> 0"
    unfolding consistent_def by blast
  with assms(1,2) show False
    unfolding consistent_def by (metis not_less)
qed

lemma consistent_le_less:
  assumes "consistent lc" "lc a b \<le> 0" "lc b c < 0"
  shows "lc a c < 0"
proof (rule ccontr)
  assume "\<not> lc a c < 0"
  with assms(1) have "lc c a \<le> 0"
    unfolding consistent_def by (metis not_less)
  with assms(1,2) have "lc c b \<le> 0"
    unfolding consistent_def by blast
  with assms(1,3) show False
    unfolding consistent_def by (metis not_less)
qed

lemma consistent_zero_sym:
  assumes "consistent lc"
  shows "lc a b = 0 \<longleftrightarrow> lc b a = 0"
  using assms unfolding consistent_def by (metis linorder_neqE_linordered_idom not_less_iff_gr_or_eq)

lemma compare_rows_neg: "compare_rows lc a b < 0 \<longleftrightarrow> ranks_before lc a b"
  unfolding compare_rows_def ranks_before_def Let_def or0_def
  by (simp add: not_less)

lemma compare_rows_zero:
  "compare_rows lc a b = 0 \<longleftrightarrow>
     r_pts a = r_pts b \<and> r_nrr a = r_nrr b \<and> r_mw a = r_mw b
     \<and> lc (t_name (r_team a)) (t_name (r_team b)) = 0"
  unfolding compare_rows_def Let_def or0_def by simp

lemma compare_rows_pos:
  assumes "consistent lc"
  shows "0 < compare_rows lc a b \<longleftrightarrow> ranks_before lc b a"
proof -
  from assms have anti: "lc x y < 0 \<longleftrightarrow> 0 < lc y x" for x y
    unfolding consistent_def by blast
  show ?thesis
    unfolding compare_rows_def ranks_before_def Let_def or0_def
    by (simp add: anti [of "t_name (r_team b)"] not_less)
qed

lemma compare_rows_le:
  "compare_rows lc a b \<le> 0 \<longleftrightarrow>
     ranks_before lc a b
     \<or> (r_pts a = r_pts b \<and> r_nrr a = r_nrr b \<and> r_mw a = r_mw b
        \<and> lc (t_name (r_team a)) (t_name (r_team b)) = 0)"
proof -
  have "compare_rows lc a b \<le> 0 \<longleftrightarrow> compare_rows lc a b < 0 \<or> compare_rows lc a b = 0"
    by linarith
  then show ?thesis
    by (simp only: compare_rows_neg compare_rows_zero)
qed

lemma compare_rows_le_name:
  "compare_rows lc a b \<le> 0 \<longleftrightarrow>
     r_pts a > r_pts b
     \<or> (r_pts a = r_pts b \<and>
         (r_nrr a > r_nrr b
          \<or> (r_nrr a = r_nrr b \<and>
              (r_mw a > r_mw b
               \<or> (r_mw a = r_mw b \<and> lc (t_name (r_team a)) (t_name (r_team b)) \<le> 0)))))"
  unfolding compare_rows_le ranks_before_def by auto

lemma compare_rows_trans:
  assumes "consistent lc" "compare_rows lc a b \<le> 0" "compare_rows lc b c \<le> 0"
  shows "compare_rows lc a c \<le> 0"
proof -
  from assms(1) have tr: "lc x y \<le> 0 \<Longrightarrow> lc y z \<le> 0 \<Longrightarrow> lc x z \<le> 0" for x y z
    unfolding consistent_def by blast
  from assms(2,3) show ?thesis
    unfolding compare_rows_le_name
    by (elim disjE conjE) (auto intro: tr)
qed

lemma compare_rows_total:
  assumes "consistent lc" "0 < compare_rows lc a b"
  shows "compare_rows lc b a \<le> 0"
  using assms compare_rows_pos [OF assms(1), of a b] compare_rows_neg [of lc b a] by simp

lemma sorted_insert_by:
  assumes tot: "\<And>a b. 0 < c a b \<Longrightarrow> c b a \<le> 0"
    and tr: "\<And>a b d. c a b \<le> 0 \<Longrightarrow> c b d \<le> 0 \<Longrightarrow> c a d \<le> 0"
    and "sorted_wrt (\<lambda>a b. c a b \<le> 0) ys"
  shows "sorted_wrt (\<lambda>a b. c a b \<le> 0) (insert_by c x ys)"
  using assms(3)
proof (induction ys)
  case Nil
  then show ?case by simp
next
  case (Cons y ys)
  show ?case
  proof (cases "c x y \<le> 0")
    case True
    with Cons.prems have "\<forall>z\<in>set (y # ys). c x z \<le> 0"
      by (auto intro: tr)
    with True Cons.prems show ?thesis by simp
  next
    case False
    then have "c y x \<le> 0" using tot [of x y] by simp
    with False Cons show ?thesis by (simp add: set_insert_by)
  qed
qed

lemma sorted_sort_by:
  assumes tot: "\<And>a b. 0 < c a b \<Longrightarrow> c b a \<le> 0"
    and tr: "\<And>a b d. c a b \<le> 0 \<Longrightarrow> c b d \<le> 0 \<Longrightarrow> c a d \<le> 0"
  shows "sorted_wrt (\<lambda>a b. c a b \<le> 0) (sort_by c xs)"
proof (induction xs)
  case Nil
  show ?case by (simp add: sort_by_def)
next
  case (Cons x xs)
  from sorted_insert_by [of c "sort_by c xs" x, OF tot tr Cons]
  show ?case by (simp add: sort_by_def)
qed

text \<open>A symmetric relation that holds between any two entries still does after the sort.\<close>

lemma apart_insert_by:
  assumes sym: "\<And>a b. Q a b \<Longrightarrow> Q b a"
    and "sorted_wrt Q ys" "\<forall>y\<in>set ys. Q x y"
  shows "sorted_wrt Q (insert_by c x ys)"
  using assms(2,3)
proof (induction ys)
  case Nil
  then show ?case by simp
next
  case (Cons y ys)
  then show ?case by (auto simp: set_insert_by intro: sym)
qed

lemma apart_sort_by:
  assumes sym: "\<And>a b. Q a b \<Longrightarrow> Q b a" and "sorted_wrt Q xs"
  shows "sorted_wrt Q (sort_by c xs)"
  using assms(2)
proof (induction xs)
  case Nil
  show ?case by (simp add: sort_by_def)
next
  case (Cons x xs)
  then have s: "sorted_wrt Q (sort_by c xs)" and a: "\<forall>y\<in>set xs. Q x y" by simp_all
  have "set (sort_by c xs) = set xs"
    using mset_sort_by [of c xs] by (rule mset_eq_setD)
  with a have "\<forall>y\<in>set (sort_by c xs). Q x y" by simp
  from apart_insert_by [of Q "sort_by c xs" x c, OF sym s this]
  show ?case by (simp add: sort_by_def)
qed

lemma sorted_wrt_both:
  assumes "sorted_wrt P xs" "sorted_wrt Q xs"
  shows "sorted_wrt (\<lambda>a b. P a b \<and> Q a b) xs"
  using assms by (induction xs) auto

lemma standings_sorted:
  assumes "consistent lc"
  shows "sorted_wrt (\<lambda>a b. compare_rows lc a b \<le> 0) (standings pf lc t)"
  unfolding standings_def
  by (rule sorted_sort_by) (blast intro: compare_rows_total [OF assms] compare_rows_trans [OF assms])+

lemma standings_apart:
  assumes "consistent lc"
    and "sorted_wrt (\<lambda>a b. lc a b \<noteq> 0) (map t_name (teams t))"
  shows "sorted_wrt (\<lambda>a b. lc (t_name (r_team a)) (t_name (r_team b)) \<noteq> 0) (standings pf lc t)"
  unfolding standings_def
proof (rule apart_sort_by)
  fix a b :: Standing
  assume "lc (t_name (r_team a)) (t_name (r_team b)) \<noteq> 0"
  then show "lc (t_name (r_team b)) (t_name (r_team a)) \<noteq> 0"
    using consistent_zero_sym [OF assms(1)] by blast
next
  from assms(2)
  show "sorted_wrt (\<lambda>a b. lc (t_name (r_team a)) (t_name (r_team b)) \<noteq> 0)
          (map (team_row pf t) (teams t))"
    by (simp add: sorted_wrt_map)
qed

lemma standings_strict:
  assumes "consistent lc"
    and "sorted_wrt (\<lambda>a b. lc a b \<noteq> 0) (map t_name (teams t))"
  shows "sorted_wrt (ranks_before lc) (standings pf lc t)"
proof -
  from sorted_wrt_both [OF standings_sorted [OF assms(1)] standings_apart [OF assms]]
  have "sorted_wrt (\<lambda>a b. compare_rows lc a b \<le> 0 \<and> lc (t_name (r_team a)) (t_name (r_team b)) \<noteq> 0)
          (standings pf lc t)" .
  then show ?thesis
    by (rule sorted_wrt_mono_rel [rotated]) (auto simp: compare_rows_le)
qed

text \<open>
  Bravo and Alpha have 2 points and a net run rate of 0 each; Bravo has a win and
  Alpha none, and Bravo is ranked first although \<open>Alpha\<close> sorts before \<open>Bravo\<close>. And
  two teams without matches whose names differ in a soft hyphen have different names and
  compare as equal under a comparison that leaves the soft hyphen out of account.
\<close>

theorem equal_points_and_nrr_counterexample:
  "map (\<lambda>r. (t_name (r_team r), r_pts r, r_nrr r, r_mw r)) (standings ex_pf lex_compare ex_level)
     = [(''Delta'', 3, 1 / 2, 1), (''Bravo'', 2, 0, 1), (''Alpha'', 2, 0, 0),
        (''Charlie'', 1, - (1 / 2), 0)]
   \<and> lex_compare ''Alpha'' ''Bravo'' < 0
   \<and> distinct (map t_name (teams ex_twins))
   \<and> compare_rows ignoring_compare
        (team_row ex_pf ex_twins (teams ex_twins ! 0))
        (team_row ex_pf ex_twins (teams ex_twins ! 1)) = 0"
  by code_simp

text \<open>
  C3. For a consistent comparison \<open>lc\<close> of names: the standings are the rows of the
  teams, rearranged so that no row compares greater than a later one; a row compares
  less than another exactly when it has more points, or as many and a greater net run
  rate, or both equal and more wins, or all three equal and the lesser name. The
  comparison is total and transitive. Two rows compare as equal exactly when they agree
  on points, net run rate and wins and \<open>lc\<close> is 0 on their names; two rows that agree
  on points, net run rate and wins are in ascending order of name. When \<open>lc\<close> is 0 on no
  two of the team names, every row ranks strictly before every later one, and two rows
  with the same points, net run rate and wins are in strictly ascending order of name.
\<close>

theorem standings_ranking:
  assumes "consistent lc"
  shows "mset (standings pf lc t) = mset (map (team_row pf t) (teams t))
    \<and> sorted_wrt (\<lambda>a b. compare_rows lc a b \<le> 0) (standings pf lc t)
    \<and> (\<forall>a b. compare_rows lc a b < 0 \<longleftrightarrow> ranks_before lc a b)
    \<and> (\<forall>a b. compare_rows lc a b \<le> 0 \<or> compare_rows lc b a \<le> 0)
    \<and> (\<forall>a b c. compare_rows lc a b \<le> 0 \<and> compare_rows lc b c \<le> 0
          \<longrightarrow> compare_rows lc a c \<le> 0)
    \<and> (\<forall>a b. compare_rows lc a b = 0 \<longleftrightarrow>
          r_pts a = r_pts b \<and> r_nrr a = r_nrr b \<and> r_mw a = r_mw b
          \<and> lc (t_name (r_team a)) (t_name (r_team b)) = 0)
    \<and> (\<forall>i j. i < j \<and> j < length (standings pf lc t)
          \<and> r_pts (standings pf lc t ! i) = r_pts (standings pf lc t ! j)
          \<and> r_nrr (standings pf lc t ! i) = r_nrr (standings pf lc t ! j)
          \<and> r_mw (standings pf lc t ! i) = r_mw (standings pf lc t ! j)
        \<longrightarrow> lc (t_name (r_team (standings pf lc t ! i)))
               (t_name (r_team (standings pf lc t ! j))) \<le> 0)
    \<and> ((\<forall>i j. i < j \<and> j < length (teams t)
           \<longrightarrow> lc (t_name (teams t ! i)) (t_name (teams t ! j)) \<noteq> 0) \<longrightarrow>
          sorted_wrt (ranks_before lc) (standings pf lc t)
          \<and> (\<forall>i j. i < j \<and> j < length (standings pf lc t)
                \<and> r_pts (standings pf lc t ! i) = r_pts (standings pf lc t ! j)
                \<and> r_nrr (standings pf lc t ! i) = r_nrr (standings pf lc t ! j)
                \<and> r_mw (standings pf lc t ! i) = r_mw (standings pf lc t ! j)
              \<longrightarrow> lc (t_name (r_team (standings pf lc t ! i)))
                     (t_name (r_team (standings pf lc t ! j))) < 0))"
proof -
  let ?S = "standings pf lc t"
  have A: "mset ?S = mset (map (team_row pf t) (teams t))"
    by (simp add: standings_def mset_sort_by)
  note B = standings_sorted [OF assms, of pf t]
  have C: "\<forall>a b. compare_rows lc a b < 0 \<longleftrightarrow> ranks_before lc a b"
    by (simp add: compare_rows_neg)
  have D: "\<forall>a b. compare_rows lc a b \<le> 0 \<or> compare_rows lc b a \<le> 0"
    using compare_rows_total [OF assms] by (meson not_less)
  have E: "\<forall>a b c. compare_rows lc a b \<le> 0 \<and> compare_rows lc b c \<le> 0
          \<longrightarrow> compare_rows lc a c \<le> 0"
    using compare_rows_trans [OF assms] by blast
  have F: "\<forall>a b. compare_rows lc a b = 0 \<longleftrightarrow>
          r_pts a = r_pts b \<and> r_nrr a = r_nrr b \<and> r_mw a = r_mw b
          \<and> lc (t_name (r_team a)) (t_name (r_team b)) = 0"
    by (simp add: compare_rows_zero)
  have G: "lc (t_name (r_team (?S ! i))) (t_name (r_team (?S ! j))) \<le> 0"
    if "i < j" "j < length ?S" "r_pts (?S ! i) = r_pts (?S ! j)"
      "r_nrr (?S ! i) = r_nrr (?S ! j)" "r_mw (?S ! i) = r_mw (?S ! j)" for i j
  proof -
    from B that(1,2) have "compare_rows lc (?S ! i) (?S ! j) \<le> 0"
      by (simp add: sorted_wrt_iff_nth_less)
    with that(3-5) show ?thesis by (simp add: compare_rows_le_name)
  qed
  have H: "sorted_wrt (ranks_before lc) ?S
          \<and> (\<forall>i j. i < j \<and> j < length ?S
                \<and> r_pts (?S ! i) = r_pts (?S ! j)
                \<and> r_nrr (?S ! i) = r_nrr (?S ! j)
                \<and> r_mw (?S ! i) = r_mw (?S ! j)
              \<longrightarrow> lc (t_name (r_team (?S ! i))) (t_name (r_team (?S ! j))) < 0)"
    if d: "\<forall>i j. i < j \<and> j < length (teams t)
           \<longrightarrow> lc (t_name (teams t ! i)) (t_name (teams t ! j)) \<noteq> 0"
  proof -
    from d have "sorted_wrt (\<lambda>a b. lc a b \<noteq> 0) (map t_name (teams t))"
      by (simp add: sorted_wrt_iff_nth_less)
    note s = standings_strict [OF assms this, of pf]
    have "lc (t_name (r_team (?S ! i))) (t_name (r_team (?S ! j))) < 0"
      if "i < j" "j < length ?S" "r_pts (?S ! i) = r_pts (?S ! j)"
        "r_nrr (?S ! i) = r_nrr (?S ! j)" "r_mw (?S ! i) = r_mw (?S ! j)" for i j
    proof -
      from s that(1,2) have "ranks_before lc (?S ! i) (?S ! j)"
        by (simp add: sorted_wrt_iff_nth_less)
      with that(3-5) show ?thesis by (simp add: ranks_before_def)
    qed
    then have "\<forall>i j. i < j \<and> j < length ?S
                \<and> r_pts (?S ! i) = r_pts (?S ! j)
                \<and> r_nrr (?S ! i) = r_nrr (?S ! j)
                \<and> r_mw (?S ! i) = r_mw (?S ! j)
              \<longrightarrow> lc (t_name (r_team (?S ! i))) (t_name (r_team (?S ! j))) < 0"
      by (intro allI impI) (elim conjE)
    with s show ?thesis by (rule conjI)
  qed
  have G': "\<forall>i j. i < j \<and> j < length ?S
          \<and> r_pts (?S ! i) = r_pts (?S ! j)
          \<and> r_nrr (?S ! i) = r_nrr (?S ! j)
          \<and> r_mw (?S ! i) = r_mw (?S ! j)
        \<longrightarrow> lc (t_name (r_team (?S ! i))) (t_name (r_team (?S ! j))) \<le> 0"
    by (intro allI impI, elim conjE) (rule G)
  show ?thesis
    by (intro conjI A B C D E F G' impI H)
qed

theorem standings_ranking_witness:
  "consistent lex_compare
   \<and> sorted_wrt (\<lambda>a b. lex_compare a b \<noteq> 0) (map t_name (teams ex_level))
   \<and> sorted_wrt (ranks_before lex_compare) (standings ex_pf lex_compare ex_level)
   \<and> length (standings ex_pf lex_compare ex_level) = 4
   \<and> consistent ignoring_compare
   \<and> sorted_wrt (\<lambda>a b. compare_rows ignoring_compare a b \<le> 0)
        (standings ex_pf ignoring_compare ex_twins)"
proof -
  have d: "sorted_wrt (\<lambda>a b. lex_compare a b \<noteq> 0) (map t_name (teams ex_level))"
    by (simp add: ex_level_def ex_team_def)
  then have d': "\<forall>i j. i < j \<and> j < length (teams ex_level)
      \<longrightarrow> lex_compare (t_name (teams ex_level ! i)) (t_name (teams ex_level ! j)) \<noteq> 0"
    by (simp add: sorted_wrt_iff_nth_less)
  note r = standings_ranking [OF consistent_lex_compare, of ex_pf ex_level]
  have l: "length (standings ex_pf lex_compare ex_level) = 4"
    using r [THEN conjunct1, THEN arg_cong, of size] by (simp add: ex_level_def)
  note h = r [THEN conjunct2, THEN conjunct2, THEN conjunct2, THEN conjunct2, THEN conjunct2,
      THEN conjunct2, THEN conjunct2, THEN mp, OF d', THEN conjunct1]
  note w = standings_ranking [OF consistent_ignoring_compare, of ex_pf ex_twins,
      THEN conjunct2, THEN conjunct1]
  show ?thesis
    by (intro conjI consistent_lex_compare d h l consistent_ignoring_compare w)
qed

section \<open>Properties of the schedule generator\<close>

subsection \<open>The loops create the list of pairings\<close>

lemma pair_step_pool [simp]: "teamPool (pair_step rnd now ss r m g) = teamPool g"
  by (simp add: pair_step_def Let_def)

lemma pair_step_pairing:
  "map pairing (g_matches (pair_step rnd now ss r m g)) =
     map pairing (g_matches g) @ round_pairings r (teamPool g) [m]"
  by (simp add: pair_step_def Let_def round_pairings_def pairing_def new_match_def)

lemma round_pairings_append:
  "round_pairings r tp (xs @ ys) = round_pairings r tp xs @ round_pairings r tp ys"
  by (simp add: round_pairings_def)

lemma fold_pair_step:
  "teamPool (fold (pair_step rnd now ss r) ms g) = teamPool g
   \<and> map pairing (g_matches (fold (pair_step rnd now ss r) ms g)) =
       map pairing (g_matches g) @ round_pairings r (teamPool g) ms"
proof (induction ms arbitrary: g)
  case Nil
  show ?case by (simp add: round_pairings_def)
next
  case (Cons m ms)
  have "round_pairings r (teamPool g) (m # ms) =
        round_pairings r (teamPool g) [m] @ round_pairings r (teamPool g) ms"
    using round_pairings_append [of r "teamPool g" "[m]" ms] by simp
  with Cons [of "pair_step rnd now ss r m g"] show ?case
    by (simp add: pair_step_pairing)
qed

lemma round_step_effect:
  "teamPool (round_step rnd now ss h r g) = rotate_pool (teamPool g)
   \<and> map pairing (g_matches (round_step rnd now ss h r g)) =
       map pairing (g_matches g) @ round_pairings r (teamPool g) [0..<h]"
  using fold_pair_step [of rnd now ss r "[0..<h]" g]
  by (simp add: round_step_def Let_def)

lemma fold_round_step:
  "teamPool (fold (round_step rnd now ss h) [0..<k] g) = (rotate_pool ^^ k) (teamPool g)
   \<and> map pairing (g_matches (fold (round_step rnd now ss h) [0..<k] g)) =
       map pairing (g_matches g)
       @ concat (map (\<lambda>r. round_pairings r ((rotate_pool ^^ r) (teamPool g)) [0..<h]) [0..<k])"
proof (induction k)
  case 0
  show ?case by simp
next
  case (Suc k)
  let ?g = "fold (round_step rnd now ss h) [0..<k] g"
  from round_step_effect [of rnd now ss h k ?g] Suc show ?case by simp
qed

lemma generate_pairings: "map pairing (generate rnd now ss ts) = schedule_pairings ts"
  using fold_round_step [of rnd now ss "length (pool_of ts) div 2" "length (pool_of ts) - 1"
      "\<lparr>teamPool = pool_of ts, g_matches = [], draws = 0\<rparr>"]
  by (simp add: generate_def Let_def schedule_pairings_def pool_of_def)

subsection \<open>The rotation as a change of seats\<close>

lemma rotate_pool_map: "rotate_pool (map f xs) = map f (rotate_pool xs)"
  by (cases xs) (simp_all add: Let_def last_map map_butlast take_map drop_map)

lemma funpow_rotate_pool_map: "(rotate_pool ^^ r) (map f xs) = map f ((rotate_pool ^^ r) xs)"
  by (induction r) (simp_all add: rotate_pool_map)

lemma length_rotate_pool [simp]: "length (rotate_pool xs) = length xs"
  by (cases xs) (auto simp: Let_def)

lemma length_funpow_rotate_pool [simp]: "length ((rotate_pool ^^ r) xs) = length xs"
  by (induction r) simp_all

lemma rotate_pool_nth:
  assumes "2 \<le> length xs" "i < length xs"
  shows "rotate_pool xs ! i =
     (if i = 0 then xs ! 0 else if i = 1 then xs ! (length xs - 1) else xs ! (i - 1))"
proof -
  from assms obtain x ys where xs: "xs = x # ys" and ys: "ys \<noteq> []"
    by (cases xs) (auto simp: Suc_le_eq)
  have bl: "butlast xs = x # butlast ys" using xs ys by simp
  have r: "rotate_pool xs = x # last xs # butlast ys"
    using xs ys by (simp add: Let_def)
  show ?thesis
  proof (cases "i = 0")
    case True
    then show ?thesis using r xs by simp
  next
    case False
    show ?thesis
    proof (cases "i = 1")
      case True
      then show ?thesis using r xs ys by (simp add: last_conv_nth)
    next
      case F2: False
      with False obtain j where j: "i = Suc (Suc j)"
        by (metis One_nat_def not0_implies_Suc)
      with assms xs have "j < length (butlast ys)" by simp
      then have "butlast ys ! j = ys ! j" by (simp add: nth_butlast)
      then show ?thesis using r xs j by simp
    qed
  qed
qed

lemma seat_zero_round: "i < n \<Longrightarrow> seat n 0 i = i"
  by (auto simp: seat_def nat_mod_distrib)

lemma seat_step:
  assumes "2 \<le> n" "i < n"
  shows "seat n (Suc r) i =
     (if i = 0 then seat n r 0 else if i = 1 then seat n r (n - 1) else seat n r (i - 1))"
proof -
  have a: "(- 1 - int r) mod (int n - 1) = (int n - 1 - 1 - int r) mod (int n - 1)"
  proof -
    have "int n - 1 - 1 - int r = (int n - 1) + (- 1 - int r)" by simp
    then show ?thesis by (simp only: mod_add_self1)
  qed
  have b: "(int i - 1 - (1 + int r)) = (int i - 1 - 1 - int r)" by simp
  show ?thesis
    using assms by (auto simp: seat_def a b)
qed

lemma funpow_rotate_pool_upt:
  assumes "2 \<le> n"
  shows "(rotate_pool ^^ r) [0..<n] = map (seat n r) [0..<n]"
proof (induction r)
  case 0
  have "map (seat n 0) [0..<n] = [0..<n]"
    by (rule map_idI) (simp add: seat_zero_round)
  then show ?case by simp
next
  case (Suc r)
  have "rotate_pool (map (seat n r) [0..<n]) = map (seat n (Suc r)) [0..<n]"
  proof (rule nth_equalityI)
    show "length (rotate_pool (map (seat n r) [0..<n])) = length (map (seat n (Suc r)) [0..<n])"
      by simp
  next
    fix i assume "i < length (rotate_pool (map (seat n r) [0..<n]))"
    then have i: "i < n" by simp
    with assms show "rotate_pool (map (seat n r) [0..<n]) ! i = map (seat n (Suc r)) [0..<n] ! i"
      by (simp add: rotate_pool_nth seat_step)
  qed
  with Suc show ?case by simp
qed

lemma mset_rotate_pool: "mset (rotate_pool xs) = mset xs"
proof (cases xs)
  case Nil
  then show ?thesis by simp
next
  case (Cons x ys)
  have "mset (take 1 (butlast xs) @ drop 1 (butlast xs)) = mset (butlast xs)"
    by (simp only: append_take_drop_id)
  then have "mset (rotate_pool xs) = add_mset (last xs) (mset (butlast xs))"
    using Cons by (simp add: Let_def)
  also have "\<dots> = mset (butlast xs @ [last xs])" by simp
  also have "butlast xs @ [last xs] = xs"
    using Cons by (intro append_butlast_last_id) simp
  finally show ?thesis .
qed

lemma mset_funpow_rotate_pool: "mset ((rotate_pool ^^ r) xs) = mset xs"
  by (induction r) (simp_all add: mset_rotate_pool)

lemma seat_perm:
  assumes "2 \<le> n"
  shows "distinct (map (seat n r) [0..<n])" and "set (map (seat n r) [0..<n]) = {0..<n}"
proof -
  have m: "mset (map (seat n r) [0..<n]) = mset [0..<n]"
    using mset_funpow_rotate_pool [of r "[0..<n]"] funpow_rotate_pool_upt [OF assms, of r]
    by simp
  show "distinct (map (seat n r) [0..<n])"
    using m by (metis distinct_upt mset_eq_imp_distinct_iff)
  show "set (map (seat n r) [0..<n]) = {0..<n}"
    using m by (metis mset_eq_setD set_upt)
qed

lemma seat_inj:
  assumes "2 \<le> n" "i < n" "j < n" "seat n r i = seat n r j"
  shows "i = j"
proof -
  from seat_perm(1) [OF assms(1), of r] have "inj_on (seat n r) {0..<n}"
    by (simp add: distinct_map)
  with assms show ?thesis by (auto dest: inj_onD)
qed

lemma seat_less:
  assumes "2 \<le> n" "i < n"
  shows "seat n r i < n"
  using seat_perm(2) [OF assms(1), of r] assms(2) by auto

lemma seat_eq_0 [simp]: "seat n r i = 0 \<longleftrightarrow> i = 0"
  by (simp add: seat_def)

lemma seat_last:
  assumes "2 \<le> n" "r < n - 1"
  shows "seat n r (n - 1) = n - 1 - r"
proof -
  have "(int (n - 1) - 1 - int r) mod (int n - 1) = int (n - 1) - 1 - int r"
    using assms by (intro mod_pos_pos_trivial) auto
  then show ?thesis using assms by (simp add: seat_def)
qed

text \<open>
  The two seats of a pairing that does not hold the first seat add up, modulo \<open>n - 1\<close>,
  to a number that tells the round: \<open>n - 1\<close> is odd, so 2 can be cancelled.
\<close>

lemma seat_sum:
  assumes "2 \<le> n" "1 \<le> m" "m < n - 1"
  shows "(int (seat n r m) + int (seat n r (n - 1 - m)) - 2) mod (int n - 1)
         = (- 2 * (int r + 1)) mod (int n - 1)"
proof -
  let ?k = "int n - 1"
  have k: "0 < ?k" using assms by simp
  have s1: "int (seat n r m) = 1 + (int m - 1 - int r) mod ?k"
    using assms k by (simp add: seat_def)
  have s2: "int (seat n r (n - 1 - m)) = 1 + (int (n - 1 - m) - 1 - int r) mod ?k"
    using assms k by (simp add: seat_def)
  have "(int (seat n r m) + int (seat n r (n - 1 - m)) - 2) mod ?k
        = ((int m - 1 - int r) mod ?k + (int (n - 1 - m) - 1 - int r) mod ?k) mod ?k"
    by (simp only: s1 s2) simp
  also have "\<dots> = ((int m - 1 - int r) + (int (n - 1 - m) - 1 - int r)) mod ?k"
    by (simp add: mod_add_eq)
  also have "(int m - 1 - int r) + (int (n - 1 - m) - 1 - int r) = ?k + (- 2 * (int r + 1))"
    using assms by simp
  also have "(?k + (- 2 * (int r + 1))) mod ?k = (- 2 * (int r + 1)) mod ?k"
    by (rule mod_add_self1)
  finally show ?thesis .
qed

lemma round_from_sum:
  assumes "odd (n - 1)" "r < n - 1" "r' < n - 1"
    "(- 2 * (int r + 1)) mod (int n - 1) = (- 2 * (int r' + 1)) mod (int n - 1)"
  shows "r = r'"
proof -
  let ?k = "int n - 1"
  have d1: "?k dvd (- 2 * (int r + 1)) - (- 2 * (int r' + 1))"
    by (rule iffD1 [OF mod_eq_dvd_iff assms(4)])
  have e: "(- 2 * (int r + 1)) - (- 2 * (int r' + 1)) = 2 * (int r' - int r)"
    by simp
  have d2: "?k dvd 2 * (int r' - int r)"
    using d1 unfolding e .
  have "odd ?k"
    using assms(1,2) by presburger
  then have cp: "coprime ?k 2"
    by (rule iffD2 [OF coprime_right_2_iff_odd])
  have d3: "?k dvd int r' - int r"
    by (rule iffD1 [OF coprime_dvd_mult_right_iff [OF cp] d2])
  have "int r' - int r = 0"
  proof (rule ccontr)
    assume "int r' - int r \<noteq> 0"
    from dvd_imp_le_int [OF this d3] have "\<bar>?k\<bar> \<le> \<bar>int r' - int r\<bar>" .
    with assms(2,3) show False by linarith
  qed
  then show ?thesis by simp
qed

subsection \<open>Every two seats meet exactly once\<close>

lemma seat_sum_of_meeting:
  assumes "{a, b} = {c, d}"
  shows "int a + int b = int c + int (d::nat)"
  using assms by (auto simp: doubleton_eq_iff)

lemma meeting_has_first:
  assumes "even n" "2 \<le> n" "m < n div 2" "0 \<in> meeting n (r, m)"
  shows "m = 0"
proof -
  from assms(1-3) have "n - 1 - m \<noteq> 0" by (auto elim!: evenE)
  with assms(4) show ?thesis by (simp add: meeting_def)
qed

lemma meeting_inj:
  assumes n: "even n" "2 \<le> n"
    and r: "r < n - 1" "r' < n - 1"
    and m: "m < n div 2" "m' < n div 2"
    and eq: "meeting n (r, m) = meeting n (r', m')"
  shows "r = r' \<and> m = m'"
proof (cases "m = 0")
  case True
  then have "0 \<in> meeting n (r, m)" by (simp add: meeting_def seat_def)
  with eq have "0 \<in> meeting n (r', m')" by simp
  from meeting_has_first [OF n m(2) this] have m': "m' = 0" .
  have s0: "seat n q 0 = 0" for q by (simp add: seat_def)
  have "meeting n (r, 0) = {0, n - 1 - r}" "meeting n (r', 0) = {0, n - 1 - r'}"
    by (simp_all only: meeting_def fst_conv snd_conv diff_zero s0
        seat_last [OF n(2) r(1)] seat_last [OF n(2) r(2)])
  with eq True m' have "{0, n - 1 - r} = {0, n - 1 - r'}"
    by simp
  then have "n - 1 - r = n - 1 - r'"
    using r by (auto simp: doubleton_eq_iff)
  with r True m' show ?thesis by simp
next
  case False
  have m'0: "m' \<noteq> 0"
  proof
    assume "m' = 0"
    then have "0 \<in> meeting n (r', m')" by (simp add: meeting_def seat_def)
    with eq have "0 \<in> meeting n (r, m)" by simp
    from meeting_has_first [OF n m(1) this] False show False by simp
  qed
  from n m have b: "m < n - 1" "m' < n - 1" "m < n" "m' < n" "n - 1 - m < n" "n - 1 - m' < n"
    "m < n - 1 - m'" "m' < n - 1 - m" by (auto elim!: evenE)
  from eq have "{seat n r m, seat n r (n - 1 - m)} = {seat n r' m', seat n r' (n - 1 - m')}"
    by (simp add: meeting_def)
  from seat_sum_of_meeting [OF this]
  have "(int (seat n r m) + int (seat n r (n - 1 - m)) - 2) mod (int n - 1) =
        (int (seat n r' m') + int (seat n r' (n - 1 - m')) - 2) mod (int n - 1)"
    by simp
  then have "(- 2 * (int r + 1)) mod (int n - 1) = (- 2 * (int r' + 1)) mod (int n - 1)"
    using seat_sum [OF n(2) _ b(1), of r] seat_sum [OF n(2) _ b(2), of r'] False m'0
    by simp
  moreover have "odd (n - 1)" using n by simp
  ultimately have rr: "r = r'" using round_from_sum r by blast
  from eq rr have "{seat n r m, seat n r (n - 1 - m)} = {seat n r m', seat n r (n - 1 - m')}"
    by (simp add: meeting_def)
  then have "seat n r m = seat n r m' \<or> seat n r m = seat n r (n - 1 - m')"
    by (auto simp: doubleton_eq_iff)
  then have "m = m' \<or> m = n - 1 - m'"
    using seat_inj [OF n(2) b(3) b(4)] seat_inj [OF n(2) b(3) b(6)] by blast
  with b(7) rr show ?thesis by simp
qed

lemma meeting_pair:
  assumes "even n" "2 \<le> n" "m < n div 2"
  shows "meeting n (r, m) \<subseteq> {0..<n}" and "card (meeting n (r, m)) = 2"
proof -
  from assms have b: "m < n" "n - 1 - m < n" "m \<noteq> n - 1 - m" by (auto elim!: evenE)
  show "meeting n (r, m) \<subseteq> {0..<n}"
    using seat_less [OF assms(2) b(1), of r] seat_less [OF assms(2) b(2), of r]
    by (simp add: meeting_def)
  have "seat n r m \<noteq> seat n r (n - 1 - m)"
    using seat_inj [OF assms(2) b(1) b(2)] b(3) by blast
  then show "card (meeting n (r, m)) = 2" by (simp add: meeting_def)
qed

lemma set_slots: "set (slots n) = {0..<n - 1} \<times> {0..<n div 2}"
  by (simp add: slots_def)

lemma length_slots: "length (slots n) = (n - 1) * (n div 2)"
  by (simp add: slots_def)

lemma distinct_meetings:
  assumes "even n" "2 \<le> n"
  shows "distinct (map (meeting n) (slots n))"
proof -
  have "distinct (slots n)"
    by (simp add: slots_def distinct_product)
  moreover have "inj_on (meeting n) (set (slots n))"
  proof (rule inj_onI)
    fix s s' assume "s \<in> set (slots n)" "s' \<in> set (slots n)" "meeting n s = meeting n s'"
    then show "s = s'"
      using meeting_inj [OF assms, of "fst s" "fst s'" "snd s" "snd s'"]
      by (auto simp: set_slots)
  qed
  ultimately show ?thesis by (simp add: distinct_map)
qed

lemma card_two_subsets: "card {S. S \<subseteq> {0..<n} \<and> card S = 2} = n * (n - 1) div 2"
  using n_subsets [of "{0..<n}" 2] by (simp add: choose_two)

lemma finite_two_subsets: "finite {S. S \<subseteq> {0..<n::nat} \<and> card S = 2}"
  by (rule finite_subset [of _ "Pow {0..<n}"]) auto

lemma meetings_all:
  assumes "even n" "2 \<le> n"
  shows "set (map (meeting n) (slots n)) = {S. S \<subseteq> {0..<n} \<and> card S = 2}"
proof (rule card_subset_eq [OF finite_two_subsets])
  show "set (map (meeting n) (slots n)) \<subseteq> {S. S \<subseteq> {0..<n} \<and> card S = 2}"
  proof
    fix S assume "S \<in> set (map (meeting n) (slots n))"
    then obtain r m where "S = meeting n (r, m)" "m < n div 2"
      by (auto simp: set_slots)
    with meeting_pair [OF assms, of m r] show "S \<in> {S. S \<subseteq> {0..<n} \<and> card S = 2}"
      by simp
  qed
next
  have "card (set (map (meeting n) (slots n))) = (n - 1) * (n div 2)"
    using distinct_card [OF distinct_meetings [OF assms]] by (simp add: length_slots)
  also have "\<dots> = n * (n - 1) div 2"
    using assms(1) by (auto elim!: evenE)
  finally show "card (set (map (meeting n) (slots n))) = card {S. S \<subseteq> {0..<n} \<and> card S = 2}"
    by (simp add: card_two_subsets)
qed

lemma distinct_played:
  assumes "even n" "2 \<le> n"
  shows "distinct (map (meeting n) (played n N))"
  unfolding played_def by (rule distinct_map_filter [OF distinct_meetings [OF assms]])

lemma set_played:
  assumes "even n" "2 \<le> n" "N \<le> n"
  shows "set (map (meeting n) (played n N)) = {S. S \<subseteq> {0..<N} \<and> card S = 2}"
proof -
  have "set (map (meeting n) (played n N)) =
        {S \<in> set (map (meeting n) (slots n)). S \<subseteq> {0..<N}}"
    by (auto simp: played_def)
  also have "\<dots> = {S. S \<subseteq> {0..<N} \<and> card S = 2}"
    unfolding meetings_all [OF assms(1,2)] using assms(3) by auto
  finally show ?thesis .
qed

lemma length_played:
  assumes "even n" "2 \<le> n" "N \<le> n"
  shows "length (played n N) = N * (N - 1) div 2"
proof -
  have "length (played n N) = length (map (meeting n) (played n N))" by simp
  also have "\<dots> = card (set (map (meeting n) (played n N)))"
    by (rule distinct_card [OF distinct_played [OF assms(1,2)], symmetric])
  also have "\<dots> = N * (N - 1) div 2"
    by (simp only: set_played [OF assms] card_two_subsets)
  finally show ?thesis .
qed

lemma distinct_filter_eq_one:
  assumes "distinct (map f xs)" "y \<in> set (map f xs)"
  shows "length (filter (\<lambda>x. f x = y) xs) = 1"
  using assms
proof (induction xs)
  case Nil
  then show ?case by simp
next
  case (Cons x xs)
  show ?case
  proof (cases "f x = y")
    case True
    with Cons.prems have "\<forall>z\<in>set xs. f z \<noteq> y" by (auto simp: image_iff)
    then have "filter (\<lambda>x. f x = y) xs = []" by (simp add: filter_empty_conv)
    with True show ?thesis by simp
  next
    case False
    with Cons show ?thesis by auto
  qed
qed

lemma played_once:
  assumes "even n" "2 \<le> n" "N \<le> n" "i < N" "j < N" "i \<noteq> j"
  shows "length (filter (\<lambda>s. meeting n s = {i, j}) (played n N)) = 1"
proof (rule distinct_filter_eq_one [OF distinct_played [OF assms(1,2)]])
  show "{i, j} \<in> set (map (meeting n) (played n N))"
    unfolding set_played [OF assms(1-3)] using assms(4-6) by simp
qed

subsection \<open>From seats to teams\<close>

lemma length_pool_of: "length (pool_of ts) = length ts + length ts mod 2"
  by (simp add: pool_of_def)

lemma even_pool_of: "even (length (pool_of ts))"
  by (simp add: pool_of_def) presburger

lemma pool_of_nth: "k < length ts \<Longrightarrow> pool_of ts ! k = ts ! k"
  by (simp add: pool_of_def nth_append)

lemma pool_of_bye:
  assumes "''BYE'' \<notin> set (map t_id ts)" "k < length (pool_of ts)"
  shows "t_id (pool_of ts ! k) \<noteq> ''BYE'' \<longleftrightarrow> k < length ts"
proof (cases "k < length ts")
  case True
  with assms(1) have "t_id (ts ! k) \<noteq> ''BYE''" by (metis nth_map nth_mem length_map)
  with True show ?thesis by (simp add: pool_of_nth)
next
  case False
  with assms(2) have "pool_of ts ! k = BYE"
    by (auto simp: pool_of_def nth_append split: if_splits)
  with False show ?thesis by (simp add: BYE_def)
qed

lemma funpow_rotate_pool_nth:
  assumes "2 \<le> length tp" "i < length tp"
  shows "(rotate_pool ^^ r) tp ! i = tp ! seat (length tp) r i"
proof -
  have "(rotate_pool ^^ r) tp = (rotate_pool ^^ r) (map ((!) tp) [0..<length tp])"
    by (simp add: map_nth)
  also have "\<dots> = map ((!) tp) (map (seat (length tp) r) [0..<length tp])"
    by (simp only: funpow_rotate_pool_map funpow_rotate_pool_upt [OF assms(1)])
  finally show ?thesis using assms(2) by simp
qed

lemma round_pairings_seats:
  assumes b: "''BYE'' \<notin> set (map t_id ts)" and n: "2 \<le> length (pool_of ts)"
  shows "round_pairings r ((rotate_pool ^^ r) (pool_of ts)) [0..<length (pool_of ts) div 2] =
     map (\<lambda>m. fixture (pool_of ts) (r, m))
       (filter (\<lambda>m. meeting (length (pool_of ts)) (r, m) \<subseteq> {0..<length ts})
          [0..<length (pool_of ts) div 2])"
proof -
  let ?tp = "pool_of ts" and ?n = "length (pool_of ts)"
  let ?tr = "(rotate_pool ^^ r) ?tp"
  have ev: "even ?n" by (rule even_pool_of)
  have nth: "?tr ! m = ?tp ! seat ?n r m" "?tr ! (length ?tr - 1 - m) = ?tp ! seat ?n r (?n - 1 - m)"
    "seat ?n r m < ?n" "seat ?n r (?n - 1 - m) < ?n"
    if "m < ?n div 2" for m
  proof -
    from that ev have m: "m < ?n" "?n - 1 - m < ?n" by (auto elim!: evenE)
    show "?tr ! m = ?tp ! seat ?n r m"
      by (rule funpow_rotate_pool_nth [OF n m(1)])
    show "?tr ! (length ?tr - 1 - m) = ?tp ! seat ?n r (?n - 1 - m)"
      using funpow_rotate_pool_nth [OF n m(2), of r] by simp
    show "seat ?n r m < ?n" "seat ?n r (?n - 1 - m) < ?n"
      using seat_less [OF n] m by blast+
  qed
  have f: "filter (\<lambda>m. t_id (?tr ! m) \<noteq> ''BYE'' \<and> t_id (?tr ! (length ?tr - 1 - m)) \<noteq> ''BYE'')
             [0..<?n div 2]
           = filter (\<lambda>m. meeting ?n (r, m) \<subseteq> {0..<length ts}) [0..<?n div 2]"
  proof (rule filter_cong [OF refl])
    fix m assume "m \<in> set [0..<?n div 2]"
    then have m: "m < ?n div 2" by simp
    show "(t_id (?tr ! m) \<noteq> ''BYE'' \<and> t_id (?tr ! (length ?tr - 1 - m)) \<noteq> ''BYE'')
          = (meeting ?n (r, m) \<subseteq> {0..<length ts})"
      by (simp only: nth [OF m] pool_of_bye [OF b nth(3) [OF m]] pool_of_bye [OF b nth(4) [OF m]])
         (simp add: meeting_def)
  qed
  have g: "map (\<lambda>m. (r + 1, t_id (?tr ! m), t_id (?tr ! (length ?tr - 1 - m)))) ms
           = map (\<lambda>m. fixture ?tp (r, m)) ms"
    if "set ms \<subseteq> {0..<?n div 2}" for ms
  proof (rule map_cong [OF refl])
    fix m assume "m \<in> set ms"
    with that have m: "m < ?n div 2" by auto
    show "(r + 1, t_id (?tr ! m), t_id (?tr ! (length ?tr - 1 - m))) = fixture ?tp (r, m)"
      by (simp only: nth [OF m] fixture_def fst_conv snd_conv)
  qed
  show ?thesis
    unfolding round_pairings_def f by (rule g) auto
qed

lemma schedule_pairings_played:
  assumes b: "''BYE'' \<notin> set (map t_id ts)" and n: "2 \<le> length (pool_of ts)"
  shows "schedule_pairings ts =
     map (fixture (pool_of ts)) (played (length (pool_of ts)) (length ts))"
proof -
  let ?n = "length (pool_of ts)"
  have "map (fixture (pool_of ts)) (played ?n (length ts)) =
    concat (map (\<lambda>r. map (\<lambda>m. fixture (pool_of ts) (r, m))
       (filter (\<lambda>m. meeting ?n (r, m) \<subseteq> {0..<length ts}) [0..<?n div 2])) [0..<?n - 1])"
    by (simp add: played_def slots_def product_concat_map filter_concat map_concat
        filter_map comp_def)
  also have "\<dots> = schedule_pairings ts"
    unfolding schedule_pairings_def
    by (simp only: round_pairings_seats [OF b n])
  finally show ?thesis by simp
qed

lemma pool_of_bounds:
  assumes "2 \<le> length ts"
  shows "2 \<le> length (pool_of ts)" "length ts \<le> length (pool_of ts)"
  using assms by (simp_all add: length_pool_of)

lemma length_generate:
  assumes "2 \<le> length ts" "''BYE'' \<notin> set (map t_id ts)"
  shows "length (generate rnd now ss ts) = length ts * (length ts - 1) div 2"
proof -
  have "length (generate rnd now ss ts) = length (map pairing (generate rnd now ss ts))"
    by simp
  also have "\<dots> = length (played (length (pool_of ts)) (length ts))"
    by (simp only: generate_pairings
        schedule_pairings_played [OF assms(2) pool_of_bounds(1) [OF assms(1)]] length_map)
  also have "\<dots> = length ts * (length ts - 1) div 2"
    by (rule length_played [OF even_pool_of pool_of_bounds [OF assms(1)]])
  finally show ?thesis .
qed

lemma fixture_teams:
  assumes N: "2 \<le> length ts" and d: "distinct (map t_id ts)"
    and b: "''BYE'' \<notin> set (map t_id ts)"
    and s: "s \<in> set (played (length (pool_of ts)) (length ts))"
  shows "\<exists>x y. x < length ts \<and> y < length ts \<and> x \<noteq> y
           \<and> meeting (length (pool_of ts)) s = {x, y}
           \<and> fixture (pool_of ts) s = (fst s + 1, t_id (ts ! x), t_id (ts ! y))"
proof -
  let ?n = "length (pool_of ts)"
  let ?x = "seat ?n (fst s) (snd s)" and ?y = "seat ?n (fst s) (?n - 1 - snd s)"
  from s have sub: "meeting ?n s \<subseteq> {0..<length ts}" and sl: "snd s < ?n div 2"
    by (auto simp: played_def set_slots)
  from sub have xy: "?x < length ts" "?y < length ts" by (simp_all add: meeting_def)
  from meeting_pair(2) [OF even_pool_of pool_of_bounds(1) [OF N] sl, of "fst s"]
  have "?x \<noteq> ?y" by (auto simp: meeting_def)
  moreover have "fixture (pool_of ts) s = (fst s + 1, t_id (ts ! ?x), t_id (ts ! ?y))"
    by (simp only: fixture_def pool_of_nth [OF xy(1)] pool_of_nth [OF xy(2)])
  ultimately show ?thesis using xy by (auto simp: meeting_def)
qed

lemma ids_pair_eq:
  assumes d: "distinct (map t_id ts)"
    and "x < length ts" "y < length ts" "i < length ts" "j < length ts"
  shows "{t_id (ts ! x), t_id (ts ! y)} = {t_id (ts ! i), t_id (ts ! j)} \<longleftrightarrow> {x, y} = {i, j}"
proof -
  have e: "t_id (ts ! p) = t_id (ts ! q) \<longleftrightarrow> p = q" if "p < length ts" "q < length ts" for p q
    using d that nth_eq_iff_index_eq [of "map t_id ts" p q] by simp
  show ?thesis
    by (simp add: doubleton_eq_iff e assms)
qed

lemma generate_once:
  assumes N: "2 \<le> length ts" and d: "distinct (map t_id ts)"
    and b: "''BYE'' \<notin> set (map t_id ts)"
    and ij: "i < length ts" "j < length ts" "i \<noteq> j"
  shows "length (filter (\<lambda>m. {team1Id m, team2Id m} = {t_id (ts ! i), t_id (ts ! j)})
                  (generate rnd now ss ts)) = 1"
proof -
  let ?n = "length (pool_of ts)"
  let ?Q = "\<lambda>k. {fst (snd k), snd (snd k)} = {t_id (ts ! i), t_id (ts ! j)}"
  have "length (filter (\<lambda>m. {team1Id m, team2Id m} = {t_id (ts ! i), t_id (ts ! j)})
                  (generate rnd now ss ts))
        = length (filter ?Q (map pairing (generate rnd now ss ts)))"
    by (simp add: comp_def pairing_def)
  also have "\<dots> = length (filter (?Q \<circ> fixture (pool_of ts)) (played ?n (length ts)))"
    by (simp only: generate_pairings
        schedule_pairings_played [OF b pool_of_bounds(1) [OF N]] length_filter_map)
  also have "filter (?Q \<circ> fixture (pool_of ts)) (played ?n (length ts))
        = filter (\<lambda>s. meeting ?n s = {i, j}) (played ?n (length ts))"
  proof (rule filter_cong [OF refl])
    fix s assume "s \<in> set (played ?n (length ts))"
    from fixture_teams [OF N d b this] obtain x y where
      xy: "x < length ts" "y < length ts" "meeting ?n s = {x, y}"
        "fixture (pool_of ts) s = (fst s + 1, t_id (ts ! x), t_id (ts ! y))"
      by blast
    show "(?Q \<circ> fixture (pool_of ts)) s = (meeting ?n s = {i, j})"
      using ids_pair_eq [OF d xy(1,2) ij(1,2)] by (simp add: xy(3,4))
  qed
  also have "length \<dots> = 1"
    by (rule played_once [OF even_pool_of pool_of_bounds [OF N] ij])
  finally show ?thesis .
qed

lemma generate_sides:
  assumes N: "2 \<le> length ts" and d: "distinct (map t_id ts)"
    and b: "''BYE'' \<notin> set (map t_id ts)"
    and m: "m \<in> set (generate rnd now ss ts)"
  shows "team1Id m \<in> set (map t_id ts) \<and> team2Id m \<in> set (map t_id ts)
         \<and> team1Id m \<noteq> team2Id m"
proof -
  from m have "pairing m \<in> set (map pairing (generate rnd now ss ts))" by simp
  then obtain s where s: "s \<in> set (played (length (pool_of ts)) (length ts))"
    and p: "pairing m = fixture (pool_of ts) s"
    unfolding generate_pairings schedule_pairings_played [OF b pool_of_bounds(1) [OF N]]
    by auto
  from fixture_teams [OF N d b s] obtain x y where
    xy: "x < length ts" "y < length ts" "x \<noteq> y"
      "fixture (pool_of ts) s = (fst s + 1, t_id (ts ! x), t_id (ts ! y))"
    by blast
  from p xy(4) have "team1Id m = t_id (ts ! x)" "team2Id m = t_id (ts ! y)"
    by (simp_all add: pairing_def)
  moreover have "t_id (ts ! x) \<noteq> t_id (ts ! y)"
    using d xy(1-3) nth_eq_iff_index_eq [of "map t_id ts" x y] by simp
  ultimately show ?thesis using xy(1,2) by simp
qed

lemma round_has_match:
  assumes "2 \<le> N" "n = N + N mod 2" "r < n - 1"
  shows "\<exists>m<n div 2. meeting n (r, m) \<subseteq> {0..<N}"
proof (cases "even N")
  case True
  with assms have n: "n = N" "even n" "2 \<le> n" "0 < n div 2" by auto
  from meeting_pair(1) [OF n(2,3,4), of r] n(1,4) show ?thesis by blast
next
  case False
  with assms(1) have o: "N mod 2 = 1" "3 \<le> N" by presburger+
  with assms(2) have n1: "n = N + 1" by simp
  have n2: "even n" unfolding n1 using False by simp
  have n3: "2 \<le> n" "4 \<le> n" unfolding n1 using o(2) by linarith+
  note n = n1 n2 n3
  have h: "0 < n div 2" "1 < n div 2" using n3(2) by linarith+
  have ne: "seat n r a \<noteq> seat n r b" if "a < n" "b < n" "a \<noteq> b" for a b
    using seat_inj [OF n(3) that(1,2), of r] that(3) by blast
  have d1: "seat n r 0 \<noteq> seat n r 1" by (rule ne) (use n(4) in linarith)+
  have d2: "seat n r 0 \<noteq> seat n r (n - 2)" by (rule ne) (use n(4) in linarith)+
  have d3: "seat n r (n - 1) \<noteq> seat n r 1" by (rule ne) (use n(4) in linarith)+
  have d4: "seat n r (n - 1) \<noteq> seat n r (n - 2)" by (rule ne) (use n(4) in linarith)+
  have m0: "meeting n (r, 0) = {seat n r 0, seat n r (n - 1)}"
    by (simp add: meeting_def)
  have m1: "meeting n (r, 1) = {seat n r 1, seat n r (n - 2)}"
    by (simp add: meeting_def numeral_2_eq_2)
  have dj: "meeting n (r, 0) \<inter> meeting n (r, 1) = {}"
    unfolding m0 m1 using d1 d2 d3 d4 by blast
  have s0: "meeting n (r, 0) \<subseteq> {0..<N + 1}" and s1: "meeting n (r, 1) \<subseteq> {0..<N + 1}"
    using meeting_pair(1) [OF n(2,3) h(1), of r] meeting_pair(1) [OF n(2,3) h(2), of r] n(1)
    by simp_all
  show ?thesis
  proof (cases "N \<in> meeting n (r, 0)")
    case True
    with dj have "N \<notin> meeting n (r, 1)" by auto
    with s1 have "meeting n (r, 1) \<subseteq> {0..<N}"
      by (auto simp: less_Suc_eq)
    with h(2) show ?thesis by blast
  next
    case F: False
    with s0 have "meeting n (r, 0) \<subseteq> {0..<N}"
      by (auto simp: less_Suc_eq)
    with h(1) show ?thesis by blast
  qed
qed

lemma generate_rounds:
  assumes N: "2 \<le> length ts" and b: "''BYE'' \<notin> set (map t_id ts)"
  shows "set (map m_round (generate rnd now ss ts)) =
           {1..(if even (length ts) then length ts - 1 else length ts)}"
proof -
  let ?n = "length (pool_of ts)"
  have "map m_round (generate rnd now ss ts) = map fst (map pairing (generate rnd now ss ts))"
    by (simp add: pairing_def comp_def)
  also have "\<dots> = map (\<lambda>s. fst s + 1) (played ?n (length ts))"
    by (simp only: generate_pairings schedule_pairings_played [OF b pool_of_bounds(1) [OF N]])
       (simp add: fixture_def comp_def)
  finally have "set (map m_round (generate rnd now ss ts)) =
        (\<lambda>r. r + 1) ` fst ` set (played ?n (length ts))"
    by (simp add: image_image)
  also have "fst ` set (played ?n (length ts)) = {0..<?n - 1}"
  proof
    show "fst ` set (played ?n (length ts)) \<subseteq> {0..<?n - 1}"
      by (auto simp: played_def set_slots)
  next
    show "{0..<?n - 1} \<subseteq> fst ` set (played ?n (length ts))"
    proof
      fix r assume "r \<in> {0..<?n - 1}"
      then have r: "r < ?n - 1" by simp
      from round_has_match [OF N length_pool_of r]
      obtain m where "m < ?n div 2" "meeting ?n (r, m) \<subseteq> {0..<length ts}" by blast
      with r have "(r, m) \<in> set (played ?n (length ts))"
        by (simp add: played_def set_slots)
      then show "r \<in> fst ` set (played ?n (length ts))" by force
    qed
  qed
  also have "(\<lambda>r. r + 1) ` {0..<?n - 1} = {1..?n - 1}"
    using image_Suc_atLeastLessThan [of 0 "?n - 1"] pool_of_bounds(1) [OF N]
    by (simp add: atLeastLessThanSuc_atLeastAtMost)
  also have "?n - 1 = (if even (length ts) then length ts - 1 else length ts)"
    by (auto simp: length_pool_of odd_iff_mod_2_eq_one)
  finally show ?thesis .
qed

subsection \<open>Venues of the created matches\<close>

lemma fold_invariant:
  assumes "\<And>x s. I s \<Longrightarrow> I (f x s)" "I s"
  shows "I (fold f xs s)"
  using assms(2) by (induction xs arbitrary: s) (simp_all add: assms(1))

lemma pick_venue_placed: "pick_venue ss u \<in> set (''neutral'' # map s_id ss)"
  by (auto simp: pick_venue_def Let_def)

lemma pair_step_placed:
  assumes "list_all (placed ss) (g_matches g)"
  shows "list_all (placed ss) (g_matches (pair_step rnd now ss r m g))"
  using assms pick_venue_placed [of ss "rnd (draws g)"]
  by (simp add: pair_step_def Let_def placed_def new_match_def)

lemma round_step_placed:
  assumes "list_all (placed ss) (g_matches g)"
  shows "list_all (placed ss) (g_matches (round_step rnd now ss h r g))"
  using fold_invariant [of "\<lambda>g. list_all (placed ss) (g_matches g)" "pair_step rnd now ss r",
      OF pair_step_placed assms, of "[0..<h]"]
  by (simp add: round_step_def Let_def)

lemma generate_placed: "list_all (placed ss) (generate rnd now ss ts)"
  unfolding generate_def Let_def
  by (rule fold_invariant [of "\<lambda>g. list_all (placed ss) (g_matches g)"])
     (simp_all add: round_step_placed)

subsection \<open>The ids of the teams\<close>

lemma show_nat_digit: "n < 10 \<Longrightarrow> show_nat n = [char_of (48 + n)]"
  by (simp add: show_nat.simps)

lemma show_nat_more:
  "10 \<le> n \<Longrightarrow> show_nat n = show_nat (n div 10) @ [char_of (48 + n mod 10)]"
  by (subst show_nat.simps) simp

lemma show_nat_nonempty: "show_nat n \<noteq> []"
  by (subst show_nat.simps) simp

lemma digit_char_inj:
  assumes "a < 10" "b < 10" "(char_of (48 + a) :: char) = char_of (48 + b)"
  shows "a = (b::nat)"
proof -
  from assms(3) have "(of_char (char_of (48 + a) :: char) :: nat) = of_char (char_of (48 + b) :: char)"
    by simp
  with assms(1,2) show ?thesis by simp
qed

lemma show_nat_inj: "show_nat n = show_nat m \<Longrightarrow> n = m"
proof (induction n arbitrary: m rule: show_nat.induct)
  case (1 n)
  show ?case
  proof (cases "n < 10")
    case True
    show ?thesis
    proof (cases "m < 10")
      case m: True
      from "1.prems" True m have "(char_of (48 + n) :: char) = char_of (48 + m)"
        by (simp add: show_nat_digit)
      from digit_char_inj [OF True m this] show ?thesis .
    next
      case False
      with "1.prems" True have "show_nat (m div 10) = []"
        by (simp add: show_nat_digit show_nat_more)
      with show_nat_nonempty show ?thesis by blast
    qed
  next
    case False
    show ?thesis
    proof (cases "m < 10")
      case True
      with "1.prems" False have "show_nat (n div 10) = []"
        by (simp add: show_nat_digit show_nat_more)
      with show_nat_nonempty show ?thesis by blast
    next
      case m: False
      from "1.prems" False m
      have e: "show_nat (n div 10) = show_nat (m div 10)"
        and c: "(char_of (48 + n mod 10) :: char) = char_of (48 + m mod 10)"
        by (simp_all add: show_nat_more)
      from "1.IH" [OF False e] have d: "n div 10 = m div 10" .
      have "n mod 10 = m mod 10"
        by (rule digit_char_inj [OF _ _ c]) simp_all
      with d show ?thesis by (metis div_mult_mod_eq)
    qed
  qed
qed

lemma slot_id_inj: "slot_id i = slot_id j \<Longrightarrow> i = j"
  by (simp add: slot_id_def show_nat_inj)

lemma slot_id_not_bye: "slot_id i \<noteq> ''BYE''"
  by (simp add: slot_id_def)

lemma slot_ids:
  assumes "map t_id ts = map slot_id [0..<length ts]"
  shows "distinct (map t_id ts)" and "''BYE'' \<notin> set (map t_id ts)"
proof -
  have "inj_on slot_id (set [0..<length ts])"
    by (rule inj_onI) (rule slot_id_inj)
  then show "distinct (map t_id ts)"
    unfolding assms by (simp add: distinct_map)
  show "''BYE'' \<notin> set (map t_id ts)"
    unfolding assms using slot_id_not_bye by (metis (no_types) imageE list.set_map)
qed

subsection \<open>The claims about the generator\<close>

text \<open>
  C7. The generator refuses with \<open>InsufficientTeams\<close> exactly when there are fewer than
  two teams, and the tournament, its match list included, is then as before. With two
  teams or more it does not refuse and stores the generated list; with no stadium
  every match is at the placeholder venue.
\<close>

theorem schedule_needs_two_teams:
  "(fst (handleGenerateSchedule rnd now t) = Inl InsufficientTeams \<longleftrightarrow> length (teams t) < 2)
   \<and> (length (teams t) < 2 \<longrightarrow> snd (handleGenerateSchedule rnd now t) = t)
   \<and> (2 \<le> length (teams t) \<longrightarrow>
        fst (handleGenerateSchedule rnd now t) = Inr ()
        \<and> matches (snd (handleGenerateSchedule rnd now t))
            = generate rnd now (stadiums t) (teams t))
   \<and> (2 \<le> length (teams t) \<and> stadiums t = [] \<longrightarrow>
        fst (handleGenerateSchedule rnd now t) = Inr ()
        \<and> list_all (\<lambda>m. venueId m = ''neutral'')
             (matches (snd (handleGenerateSchedule rnd now t))))"
proof -
  have "list_all (\<lambda>m. venueId m = ''neutral'') (generate rnd now [] (teams t))"
    using generate_placed [of "[]" rnd now "teams t"]
    by (simp add: list_all_iff placed_def)
  then show ?thesis
    by (auto simp: handleGenerateSchedule_def)
qed

theorem schedule_needs_two_teams_witness:
  "length (teams (ex_duel\<lparr>teams := [ex_team ''team-0'' ''Alpha'']\<rparr>)) < 2
   \<and> handleGenerateSchedule (\<lambda>k. 0) (\<lambda>k. 0) (ex_duel\<lparr>teams := [ex_team ''team-0'' ''Alpha'']\<rparr>)
       = (Inl InsufficientTeams, ex_duel\<lparr>teams := [ex_team ''team-0'' ''Alpha'']\<rparr>)
   \<and> 2 \<le> length (teams (ex_five\<lparr>stadiums := []\<rparr>))
   \<and> stadiums (ex_five\<lparr>stadiums := []\<rparr>) = []
   \<and> fst (handleGenerateSchedule (\<lambda>k. 0) (\<lambda>k. 0) (ex_five\<lparr>stadiums := []\<rparr>)) = Inr ()
   \<and> list_all (\<lambda>m. venueId m = ''neutral'')
        (matches (snd (handleGenerateSchedule (\<lambda>k. 0) (\<lambda>k. 0) (ex_five\<lparr>stadiums := []\<rparr>))))"
proof -
  let ?t1 = "ex_duel\<lparr>teams := [ex_team ''team-0'' ''Alpha'']\<rparr>"
  let ?t5 = "ex_five\<lparr>stadiums := []\<rparr>"
  have a: "length (teams ?t1) < 2" by simp
  have b: "2 \<le> length (teams ?t5)" "stadiums ?t5 = []" by (simp_all add: ex_five_def)
  note s1 = schedule_needs_two_teams [of "\<lambda>k. 0" "\<lambda>k. 0" ?t1]
  note s5 = schedule_needs_two_teams [of "\<lambda>k. 0" "\<lambda>k. 0" ?t5]
  have "handleGenerateSchedule (\<lambda>k. 0) (\<lambda>k. 0) ?t1 = (Inl InsufficientTeams, ?t1)"
    using s1 a by (simp add: prod_eq_iff)
  moreover have "fst (handleGenerateSchedule (\<lambda>k. 0) (\<lambda>k. 0) ?t5) = Inr ()
     \<and> list_all (\<lambda>m. venueId m = ''neutral'')
        (matches (snd (handleGenerateSchedule (\<lambda>k. 0) (\<lambda>k. 0) ?t5)))"
    using s5 b by blast
  ultimately show ?thesis using a b by blast
qed

text \<open>
  C1. For N teams, N at least 2, with distinct ids none of which is \<open>BYE\<close>, and any
  stadiums, random numbers and clock: the generator creates N(N-1)/2 matches; for any
  two of the teams exactly one match is between them; every match is between two
  different teams of the list; and the rounds that occur are exactly 1 to N-1 for an even
  N, 1 to N for an odd N. A match names its sides by their ids, and the generator tells
  the bye placeholder by its id. The creation form gives the teams the ids \<open>team-0\<close>,
  \<open>team-1\<close>, ... and no edit changes an id: these are distinct and none is \<open>BYE\<close>
  (\<open>slot_ids\<close>), so the statement covers every team list of the program.
\<close>

theorem round_robin_schedule:
  assumes "2 \<le> length (teams t)" "distinct (map t_id (teams t))"
    "''BYE'' \<notin> set (map t_id (teams t))"
  shows "length (matches (snd (handleGenerateSchedule rnd now t)))
           = length (teams t) * (length (teams t) - 1) div 2
    \<and> (\<forall>i j. i < length (teams t) \<and> j < length (teams t) \<and> i \<noteq> j \<longrightarrow>
          length (filter (\<lambda>m. {team1Id m, team2Id m} = {t_id (teams t ! i), t_id (teams t ! j)})
                    (matches (snd (handleGenerateSchedule rnd now t)))) = 1)
    \<and> list_all (\<lambda>m. team1Id m \<in> set (map t_id (teams t))
                    \<and> team2Id m \<in> set (map t_id (teams t)) \<and> team1Id m \<noteq> team2Id m)
         (matches (snd (handleGenerateSchedule rnd now t)))
    \<and> set (map m_round (matches (snd (handleGenerateSchedule rnd now t))))
         = {1..(if even (length (teams t)) then length (teams t) - 1 else length (teams t))}"
proof -
  have g: "matches (snd (handleGenerateSchedule rnd now t)) = generate rnd now (stadiums t) (teams t)"
    using assms(1) by (simp add: handleGenerateSchedule_def)
  note a = length_generate [OF assms(1,3), of rnd now "stadiums t"]
  have b: "\<forall>i j. i < length (teams t) \<and> j < length (teams t) \<and> i \<noteq> j \<longrightarrow>
          length (filter (\<lambda>m. {team1Id m, team2Id m} = {t_id (teams t ! i), t_id (teams t ! j)})
                    (generate rnd now (stadiums t) (teams t))) = 1"
    using generate_once [OF assms] by blast
  have c: "list_all (\<lambda>m. team1Id m \<in> set (map t_id (teams t))
                    \<and> team2Id m \<in> set (map t_id (teams t)) \<and> team1Id m \<noteq> team2Id m)
         (generate rnd now (stadiums t) (teams t))"
    unfolding list_all_iff using generate_sides [OF assms] by blast
  note d = generate_rounds [OF assms(1,3), of rnd now "stadiums t"]
  from a b c d show ?thesis unfolding g by blast
qed

theorem round_robin_schedule_witness:
  "map t_id (teams ex_five) = map slot_id [0..<length (teams ex_five)]
   \<and> 2 \<le> length (teams ex_five) \<and> distinct (map t_id (teams ex_five))
   \<and> ''BYE'' \<notin> set (map t_id (teams ex_five))
   \<and> length (matches (snd (handleGenerateSchedule (\<lambda>k. 1 / 2) (\<lambda>k. 1700000000000) ex_five))) = 10
   \<and> set (map m_round (matches (snd (handleGenerateSchedule (\<lambda>k. 1 / 2) (\<lambda>k. 1700000000000) ex_five))))
       = {1..5}"
proof -
  have i: "map t_id (teams ex_five) = map slot_id [0..<length (teams ex_five)]"
    by code_simp
  have l: "length (teams ex_five) = 5" by (simp add: ex_five_def)
  then have n: "2 \<le> length (teams ex_five)" by simp
  note h = n slot_ids [OF i]
  from round_robin_schedule [OF h, of "\<lambda>k. 1 / 2" "\<lambda>k. 1700000000000"]
  have "length (matches (snd (handleGenerateSchedule (\<lambda>k. 1 / 2) (\<lambda>k. 1700000000000) ex_five))) = 10
   \<and> set (map m_round (matches (snd (handleGenerateSchedule (\<lambda>k. 1 / 2) (\<lambda>k. 1700000000000) ex_five))))
       = {1..5}"
    unfolding l by simp
  with i h show ?thesis by (intro conjI) simp_all
qed

text \<open>
  Two runs on the same two teams and two stadiums: with different random numbers the
  venue differs, with different clock readings the id of the match differs.
\<close>

theorem random_venue_counterexample:
  "map venueId (matches (snd (handleGenerateSchedule (\<lambda>k. 0) (\<lambda>k. 5) ex_duel))) = [''s1'']
   \<and> map venueId (matches (snd (handleGenerateSchedule (\<lambda>k. 1 / 2) (\<lambda>k. 5) ex_duel))) = [''s2'']
   \<and> map m_id (matches (snd (handleGenerateSchedule (\<lambda>k. 0) (\<lambda>k. 5) ex_duel))) = [''M-R1-0-5'']
   \<and> map m_id (matches (snd (handleGenerateSchedule (\<lambda>k. 0) (\<lambda>k. 6) ex_duel))) = [''M-R1-0-6'']"
  by code_simp

text \<open>
  C9. Whatever the random numbers and the clock, two runs of the generator on the same
  tournament agree on whether they refuse and on the round and the two sides of every
  match, in order, and every venue is a stadium of the tournament or the placeholder.
  The standings are a function of the teams, the matches, the penalties and the
  configuration alone: tournaments that agree on these have the same standings.
\<close>

theorem schedule_pairings_reproducible:
  "map pairing (matches (snd (handleGenerateSchedule rnd now t)))
     = map pairing (matches (snd (handleGenerateSchedule rnd' now' t)))
   \<and> fst (handleGenerateSchedule rnd now t) = fst (handleGenerateSchedule rnd' now' t)
   \<and> list_all (placed (stadiums t)) (generate rnd now (stadiums t) (teams t))
   \<and> (teams t = teams t' \<and> matches t = matches t' \<and> penalties t = penalties t'
        \<and> config t = config t'
      \<longrightarrow> standings pf lc t = standings pf lc t')"
proof -
  have a: "map pairing (matches (snd (handleGenerateSchedule rnd now t)))
     = map pairing (matches (snd (handleGenerateSchedule rnd' now' t)))"
    by (simp add: handleGenerateSchedule_def generate_pairings)
  have b: "fst (handleGenerateSchedule rnd now t) = fst (handleGenerateSchedule rnd' now' t)"
    by (simp add: handleGenerateSchedule_def)
  have c: "standings pf lc t = standings pf lc t'"
    if "teams t = teams t'" "matches t = matches t'" "penalties t = penalties t'"
      "config t = config t'"
  proof -
    have "team_row pf t team = team_row pf t' team" for team
      by (simp add: team_row_def team_matches_def penPts_def that)
    then have "team_row pf t = team_row pf t'" by (rule ext)
    then show ?thesis by (simp add: standings_def that(1))
  qed
  from a b c generate_placed show ?thesis by blast
qed

theorem schedule_pairings_reproducible_witness:
  "map pairing (matches (snd (handleGenerateSchedule (\<lambda>k. 0) (\<lambda>k. 5) ex_duel)))
     = map pairing (matches (snd (handleGenerateSchedule (\<lambda>k. 1 / 2) (\<lambda>k. 6) ex_duel)))
   \<and> teams ex_level = teams (ex_level\<lparr>tr_name := ''Other''\<rparr>)
   \<and> standings ex_pf lex_compare ex_level
       = standings ex_pf lex_compare (ex_level\<lparr>tr_name := ''Other''\<rparr>)"
proof -
  have "teams ex_level = teams (ex_level\<lparr>tr_name := ''Other''\<rparr>)
     \<and> matches ex_level = matches (ex_level\<lparr>tr_name := ''Other''\<rparr>)
     \<and> penalties ex_level = penalties (ex_level\<lparr>tr_name := ''Other''\<rparr>)
     \<and> config ex_level = config (ex_level\<lparr>tr_name := ''Other''\<rparr>)"
    by simp
  with schedule_pairings_reproducible [of "\<lambda>k. 0" "\<lambda>k. 5" ex_duel "\<lambda>k. 1 / 2" "\<lambda>k. 6"]
    schedule_pairings_reproducible [of _ _ ex_level _ _
      "ex_level\<lparr>tr_name := ''Other''\<rparr>" ex_pf lex_compare]
  show ?thesis by blast
qed

end
